theory Spec2Isabelle
  imports Main "HOL-Library.Word" "HOL-Library.AList"
begin

section \<open>The state-diffing service of \<^verbatim>\<open>statediff/service.go\<close>\<close>

text \<open>
  The service consumes chain events, builds a state diff per block through an external
  builder and fans the encoded payload out to the registered subscriptions. The model is
  sequential: each method of \<^verbatim>\<open>Service\<close> is a function from the world before the call to
  the outcome of the call. A call either returns, panics (send on or close of a closed
  channel) or blocks for ever (\<^verbatim>\<open>Lock\<close> on a mutex that is held and never released).
  \<^verbatim>\<open>Start\<close>, which only spawns \<^verbatim>\<open>Loop\<close> as a goroutine, \<^verbatim>\<open>Protocols\<close> and \<^verbatim>\<open>APIs\<close> are
  left out.
\<close>

subsection \<open>Values of the surrounding packages\<close>

type_synonym byte = "8 word"
type_synonym bytes = "byte list"

text \<open>\<^verbatim>\<open>common.Hash\<close> is a byte array; \<^verbatim>\<open>rpc.ID\<close> is a string.\<close>

type_synonym hash = bytes
type_synonym rpc_id = string

datatype error =
    ErrNoSubscription rpc_id  \<comment> \<open>\<^verbatim>\<open>fmt.Errorf("cannot unsubscribe; subscription for id %s does not exist", id)\<close>\<close>
  | ErrExternal string        \<comment> \<open>an error value handed back by the builder or the encoder\<close>

text \<open>
  A \<^verbatim>\<open>*types.Block\<close> as the service reads it: \<^verbatim>\<open>Hash()\<close>, \<^verbatim>\<open>ParentHash()\<close>,
  \<^verbatim>\<open>Number()\<close> (a \<^verbatim>\<open>*big.Int\<close>) and \<^verbatim>\<open>Root()\<close>. The chain posts events that carry a
  block, so the event's block is not a nil pointer; \<^verbatim>\<open>lastBlock\<close> and the result of
  \<^verbatim>\<open>GetBlockByHash\<close> may be nil and are options.
\<close>

record Block =
  Hash :: hash
  ParentHash :: hash
  Number :: int
  Root :: hash

record ChainEvent =
  Block :: Block

datatype Receipt = Receipt bytes
type_synonym Receipts = "Receipt list"

datatype AccountDiff = AccountDiff bytes

text \<open>
  Modelled from the spec: the struct \<^verbatim>\<open>StateDiff\<close> is declared outside
  \<^verbatim>\<open>service.go\<close>. The source sets its fields \<^verbatim>\<open>BlockNumber\<close> and \<^verbatim>\<open>BlockHash\<close> and leaves
  the rest at the zero value; the spec calls the rest the account deltas of the diff.
\<close>

record StateDiff =
  BlockNumber :: int
  BlockHash :: hash
  AccountDiffs :: "AccountDiff list"

text \<open>
  Modelled from the spec: the struct \<^verbatim>\<open>Payload\<close> is declared outside \<^verbatim>\<open>service.go\<close>. It has
  the three fields the source assigns, the encoded diff and the optional encoded block and
  receipts of the spec; a field that is never assigned is the empty byte slice.
\<close>

record Payload =
  StateDiffRlp :: bytes
  BlockRlp :: bytes
  ReceiptsRlp :: bytes

text \<open>
  The encoder of package \<^verbatim>\<open>rlp\<close>, as far as the service calls it:
  \<^verbatim>\<open>rlp.EncodeToBytes(stateDiff)\<close>, \<^verbatim>\<open>currentBlock.EncodeRLP(blockBuff)\<close> and
  \<^verbatim>\<open>rlp.Encode(receiptBuff, receipts)\<close>. Each returns the bytes or an error.
\<close>

record rlp =
  EncodeStateDiff :: "StateDiff \<Rightarrow> error + bytes"
  EncodeBlock :: "Block \<Rightarrow> error + bytes"
  EncodeReceipts :: "Receipts \<Rightarrow> error + bytes"

text \<open>The methods of the interface \<^verbatim>\<open>blockChain\<close> that return a value to the service.\<close>

record blockChain =
  GetBlockByHash :: "hash \<Rightarrow> Block option"
  GetReceiptsByHash :: "hash \<Rightarrow> Receipts"

text \<open>\<^verbatim>\<open>Builder.BuildStateDiff(oldStateRoot, newStateRoot, blockNumber, blockHash)\<close>.\<close>

type_synonym Builder = "hash \<Rightarrow> hash \<Rightarrow> int \<Rightarrow> hash \<Rightarrow> error + StateDiff"

subsection \<open>Channels\<close>

text \<open>
  Channels are shared with the subscribers, so they live in a store and the service holds
  references. A reference that the store does not map is the nil channel. A channel has a
  buffer of capacity \<open>dataqsiz\<close> and \<open>recvq\<close> receivers parked on it.
\<close>

type_synonym chan_ref = nat

record 'a chan =
  closed :: bool
  recvq :: nat
  dataqsiz :: nat
  buf :: "'a list"

text \<open>
  The send case of a \<^verbatim>\<open>select\<close> with a \<^verbatim>\<open>default\<close>. \<open>None\<close> is the panic of a send on a
  closed channel. Otherwise the flag tells whether the send case ran: a parked receiver
  takes the value directly, else the value is queued when the buffer has room, else (and
  on the nil channel) the \<^verbatim>\<open>default\<close> case runs and the store is unchanged.
\<close>

definition selectnbsend ::
  "(chan_ref \<rightharpoonup> 'a chan) \<Rightarrow> chan_ref \<Rightarrow> 'a \<Rightarrow> (bool \<times> (chan_ref \<rightharpoonup> 'a chan)) option" where
  "selectnbsend h r v =
     (case h r of
        None \<Rightarrow> Some (False, h)
      | Some c \<Rightarrow>
          if closed c then None
          else if 0 < recvq c then Some (True, h(r \<mapsto> c\<lparr>recvq := recvq c - 1\<rparr>))
          else if length (buf c) < dataqsiz c then Some (True, h(r \<mapsto> c\<lparr>buf := buf c @ [v]\<rparr>))
          else Some (False, h))"

text \<open>\<^verbatim>\<open>close(ch)\<close>: panics on the nil channel and on a closed channel.\<close>

definition closechan :: "(chan_ref \<rightharpoonup> 'a chan) \<Rightarrow> chan_ref \<Rightarrow> (chan_ref \<rightharpoonup> 'a chan) option" where
  "closechan h r =
     (case h r of
        None \<Rightarrow> None
      | Some c \<Rightarrow> if closed c then None else Some (h(r \<mapsto> c\<lparr>closed := True\<rparr>)))"

text \<open>\<^verbatim>\<open>make(chan T, n)\<close>.\<close>

definition makechan :: "nat \<Rightarrow> 'a chan" where
  "makechan n = \<lparr>closed = False, recvq = 0, dataqsiz = n, buf = []\<rparr>"

subsection \<open>What a call does to the outside\<close>

datatype lvl = LvlDebug | LvlInfo | LvlWarn | LvlError

datatype arg = IdArg rpc_id | NumArg int | ErrArg error | EventArg ChainEvent

text \<open>
  The trace records, in order: every log call (level, message or format string, arguments),
  every call of a collaborator, and every \<^verbatim>\<open>select\<close> on a subscriber's channel with the
  case that ran (\<open>True\<close>: the send case; \<open>False\<close>: \<^verbatim>\<open>default\<close>).
\<close>

datatype effect =
    Log lvl string "arg list"
  | SubscribeChainEventCall
  | ChainEventSubUnsubscribeCall
  | GetBlockByHashCall hash
  | BuildStateDiffCall hash hash int hash
  | GetReceiptsByHashCall hash
  | PayloadSend rpc_id Payload bool
  | QuitSend rpc_id bool

datatype 'a outcome = Returns 'a | Panics | Blocks

subsection \<open>The service\<close>

text \<open>
  Modelled from the spec: the struct \<^verbatim>\<open>Subscription\<close> is declared outside
  \<^verbatim>\<open>service.go\<close>. It holds the two channels the source stores and writes to: the payload
  sink and the control sink of the spec.
\<close>

record Subscription =
  PayloadChan :: chan_ref
  QuitChan :: chan_ref

text \<open>
  \<^verbatim>\<open>Subscriptions\<close> is a Go map. It is held as an association list whose order stands for
  the order in which \<^verbatim>\<open>range\<close> produces the entries, which Go leaves unspecified: what is
  proved for every list holds for every order.
\<close>

record Service =
  Mutex :: bool
  Builder :: Builder
  BlockChain :: blockChain
  QuitChan :: chan_ref
  Subscriptions :: "(rpc_id \<times> Subscription) list"
  lastBlock :: "Block option"
  StreamBlock :: bool
  subscribers :: "32 word"

record world = Service +
  payloadChans :: "chan_ref \<rightharpoonup> Payload chan"
  boolChans :: "chan_ref \<rightharpoonup> bool chan"
  trace :: "effect list"

definition emit :: "effect \<Rightarrow> world \<Rightarrow> world" where
  "emit e w = w\<lparr>trace := trace w @ [e]\<rparr>"

text \<open>The events a call added to the trace.\<close>

definition emitted :: "world \<Rightarrow> world \<Rightarrow> effect list" where
  "emitted w w' = drop (length (trace w)) (trace w')"

text \<open>\<^verbatim>\<open>sync.Mutex\<close>: locking a held mutex never returns in a sequential run.\<close>

definition Lock :: "world \<Rightarrow> world outcome" where
  "Lock w = (if Mutex w then Blocks else Returns (w\<lparr>Mutex := True\<rparr>))"

text \<open>Every \<^verbatim>\<open>Unlock\<close> of the source follows a \<^verbatim>\<open>Lock\<close> of the same call.\<close>

definition Unlock :: "world \<Rightarrow> world" where
  "Unlock w = w\<lparr>Mutex := False\<rparr>"

definition LoadInt32 :: "32 word \<Rightarrow> 32 word" where
  "LoadInt32 v = v"

text \<open>\<^verbatim>\<open>atomic.CompareAndSwapInt32\<close>: whether it swapped, and the value afterwards.\<close>

definition CompareAndSwapInt32 :: "32 word \<Rightarrow> 32 word \<Rightarrow> 32 word \<Rightarrow> bool \<times> 32 word" where
  "CompareAndSwapInt32 v old new = (if v = old then (True, new) else (False, v))"

text \<open>
  \<^verbatim>\<open>NewStateDiffService\<close>: the builder and the chain are given, \<^verbatim>\<open>make(chan bool)\<close>
  allocates the shutdown channel, the map is empty and the counter is zero.
\<close>

definition NewStateDiffService :: "Builder \<Rightarrow> blockChain \<Rightarrow> bool \<Rightarrow> world" where
  "NewStateDiffService builder chain streamBlock =
     \<lparr>Mutex = False, Builder = builder, BlockChain = chain, QuitChan = 0,
      Subscriptions = [], lastBlock = None, StreamBlock = streamBlock, subscribers = 0,
      payloadChans = Map.empty, boolChans = [0 \<mapsto> makechan 0], trace = []\<rparr>"

subsubsection \<open>Subscribe and Unsubscribe\<close>

text \<open>
  \<^verbatim>\<open>Subscribe\<close> touches the shared state twice: the compare-and-swap on the counter
  (lines 211 to 214) runs before \<^verbatim>\<open>sds.Lock()\<close>, the insert (lines 215 to 220) under the
  lock. Other goroutines can run between the two, so they are two steps; \<^verbatim>\<open>Subscribe\<close>
  itself is the call that nothing interrupts.
\<close>

definition Subscribe_cas :: "world \<Rightarrow> world" where
  "Subscribe_cas w =
     (let w1 = emit (Log LvlInfo ''Subscribing to the statediff service'' []) w;
          (swapped, v) = CompareAndSwapInt32 (subscribers w1) 0 1
      in if swapped
         then emit (Log LvlInfo ''State diffing subscription received; beginning statediff processing'' [])
                (w1\<lparr>subscribers := v\<rparr>)
         else w1)"

definition Subscribe_insert :: "rpc_id \<Rightarrow> chan_ref \<Rightarrow> chan_ref \<Rightarrow> world \<Rightarrow> world outcome" where
  "Subscribe_insert sid sub quitChan w =
     (case Lock w of
        Returns w1 \<Rightarrow>
          Returns (Unlock (w1\<lparr>Subscriptions :=
            AList.update sid \<lparr>PayloadChan = sub, Subscription.QuitChan = quitChan\<rparr> (Subscriptions w1)\<rparr>))
      | Panics \<Rightarrow> Panics
      | Blocks \<Rightarrow> Blocks)"

definition Subscribe :: "rpc_id \<Rightarrow> chan_ref \<Rightarrow> chan_ref \<Rightarrow> world \<Rightarrow> world outcome" where
  "Subscribe sid sub quitChan w = Subscribe_insert sid sub quitChan (Subscribe_cas w)"

text \<open>
  \<^verbatim>\<open>Unsubscribe\<close>. The branch for an unknown id returns the error at once; the
  \<^verbatim>\<open>Unlock\<close> at the end of the function is not on that path.
\<close>

definition Unsubscribe :: "rpc_id \<Rightarrow> world \<Rightarrow> (error option \<times> world) outcome" where
  "Unsubscribe sid w =
     (let w1 = emit (Log LvlInfo ''Unsubscribing from the statediff service'' []) w
      in case Lock w1 of
           Returns w2 \<Rightarrow>
             (case map_of (Subscriptions w2) sid of
                None \<Rightarrow> Returns (Some (ErrNoSubscription sid), w2)
              | Some _ \<Rightarrow>
                  let w3 = w2\<lparr>Subscriptions := AList.delete sid (Subscriptions w2)\<rparr>;
                      w4 = (if length (Subscriptions w3) = 0
                            then (let (swapped, v) = CompareAndSwapInt32 (subscribers w3) 1 0
                                  in if swapped
                                     then emit (Log LvlInfo ''No more subscriptions; halting statediff processing'' [])
                                            (w3\<lparr>subscribers := v\<rparr>)
                                     else w3)
                            else w3)
                  in Returns (None, Unlock w4))
         | Panics \<Rightarrow> Panics
         | Blocks \<Rightarrow> Blocks)"

subsubsection \<open>Stop\<close>

definition Stop :: "world \<Rightarrow> (error option \<times> world) outcome" where
  "Stop w =
     (let w1 = emit (Log LvlInfo ''Stopping statediff service'' []) w
      in case closechan (boolChans w1) (QuitChan w1) of
           None \<Rightarrow> Panics
         | Some h \<Rightarrow> Returns (None, w1\<lparr>boolChans := h\<rparr>))"

subsubsection \<open>send and close\<close>

text \<open>
  The body of \<^verbatim>\<open>for id, sub := range sds.Subscriptions\<close> in \<^verbatim>\<open>send\<close> for one entry:
  the \<^verbatim>\<open>select\<close> on the payload channel and, in its \<^verbatim>\<open>default\<close> case, the \<^verbatim>\<open>select\<close>
  on the quit channel and the \<^verbatim>\<open>delete\<close>.
\<close>

definition send_visit :: "Payload \<Rightarrow> rpc_id \<Rightarrow> Subscription \<Rightarrow> world \<Rightarrow> world outcome" where
  "send_visit payload sid sub w =
     (case selectnbsend (payloadChans w) (PayloadChan sub) payload of
        None \<Rightarrow> Panics
      | Some (True, pcs) \<Rightarrow>
          Returns (emit (Log LvlInfo ''sending state diff payload to subscription %s'' [IdArg sid])
                     (emit (PayloadSend sid payload True) (w\<lparr>payloadChans := pcs\<rparr>)))
      | Some (False, _) \<Rightarrow>
          (let w1 = emit (Log LvlInfo ''unable to send payload to subscription %s; channel has no receiver'' [IdArg sid])
                      (emit (PayloadSend sid payload False) w)
           in case selectnbsend (boolChans w1) (Subscription.QuitChan sub) True of
                None \<Rightarrow> Panics
              | Some (ok, bcs) \<Rightarrow>
                  (let w2 = emit (Log LvlInfo
                                   (if ok then ''closing subscription %s''
                                    else ''unable to close subscription %s; channel has no receiver'')
                                   [IdArg sid])
                              (emit (QuitSend sid ok) (w1\<lparr>boolChans := bcs\<rparr>))
                   in Returns (w2\<lparr>Subscriptions := AList.delete sid (Subscriptions w2)\<rparr>))))"

text \<open>
  The loop over the entries that \<^verbatim>\<open>range\<close> produces. The body deletes only the entry it
  is visiting, so each entry of the map at the start is visited once.
\<close>

fun send_range :: "Payload \<Rightarrow> (rpc_id \<times> Subscription) list \<Rightarrow> world \<Rightarrow> world outcome" where
  "send_range payload [] w = Returns w"
| "send_range payload ((sid, sub) # rest) w =
     (case send_visit payload sid sub w of
        Returns w' \<Rightarrow> send_range payload rest w'
      | Panics \<Rightarrow> Panics
      | Blocks \<Rightarrow> Blocks)"

definition send :: "Payload \<Rightarrow> world \<Rightarrow> world outcome" where
  "send payload w =
     (case Lock w of
        Returns w1 \<Rightarrow>
          (case send_range payload (Subscriptions w1) w1 of
             Returns w2 \<Rightarrow>
               (let w3 = (if length (Subscriptions w2) = 0
                          then (let (swapped, v) = CompareAndSwapInt32 (subscribers w2) 1 0
                                in if swapped
                                   then emit (Log LvlInfo ''No more subscriptions; halting statediff processing'' [])
                                          (w2\<lparr>subscribers := v\<rparr>)
                                   else w2)
                          else w2)
                in Returns (Unlock w3))
           | Panics \<Rightarrow> Panics
           | Blocks \<Rightarrow> Blocks)
      | Panics \<Rightarrow> Panics
      | Blocks \<Rightarrow> Blocks)"

text \<open>The body of the \<^verbatim>\<open>range\<close> loop of \<^verbatim>\<open>close\<close> for one entry, and the loop.\<close>

definition close_visit :: "rpc_id \<Rightarrow> Subscription \<Rightarrow> world \<Rightarrow> world outcome" where
  "close_visit sid sub w =
     (case selectnbsend (boolChans w) (Subscription.QuitChan sub) True of
        None \<Rightarrow> Panics
      | Some (ok, bcs) \<Rightarrow>
          (let w1 = emit (Log LvlInfo
                           (if ok then ''closing subscription %s''
                            else ''unable to close subscription %s; channel has no receiver'')
                           [IdArg sid])
                      (emit (QuitSend sid ok) (w\<lparr>boolChans := bcs\<rparr>))
           in Returns (w1\<lparr>Subscriptions := AList.delete sid (Subscriptions w1)\<rparr>)))"

fun close_range :: "(rpc_id \<times> Subscription) list \<Rightarrow> world \<Rightarrow> world outcome" where
  "close_range [] w = Returns w"
| "close_range ((sid, sub) # rest) w =
     (case close_visit sid sub w of
        Returns w' \<Rightarrow> close_range rest w'
      | Panics \<Rightarrow> Panics
      | Blocks \<Rightarrow> Blocks)"

definition close :: "world \<Rightarrow> world outcome" where
  "close w =
     (case Lock w of
        Returns w1 \<Rightarrow>
          (case close_range (Subscriptions w1) w1 of
             Returns w2 \<Rightarrow> Returns (Unlock w2)
           | Panics \<Rightarrow> Panics
           | Blocks \<Rightarrow> Blocks)
      | Panics \<Rightarrow> Panics
      | Blocks \<Rightarrow> Blocks)"

subsubsection \<open>processStateDiff\<close>

definition getEmptyStateDiffRlpForBlock :: "rlp \<Rightarrow> Block \<Rightarrow> error + bytes" where
  "getEmptyStateDiffRlpForBlock enc block =
     (let stateDiffWithoutUpdatedAccounts =
            \<lparr>BlockNumber = Number block, BlockHash = Hash block, AccountDiffs = []\<rparr>
      in EncodeStateDiff enc stateDiffWithoutUpdatedAccounts)"

text \<open>
  \<^verbatim>\<open>reflect.DeepEqual\<close> on the two byte slices that \<^verbatim>\<open>rlp.EncodeToBytes\<close> returned is
  equality of their contents.
\<close>

definition isEmptyPayload :: "rlp \<Rightarrow> Payload \<Rightarrow> Block \<Rightarrow> bool \<times> error option" where
  "isEmptyPayload enc payload block =
     (case getEmptyStateDiffRlpForBlock enc block of
        Inl err \<Rightarrow> (False, Some err)
      | Inr emptyStateDiffRlp \<Rightarrow> (StateDiffRlp payload = emptyStateDiffRlp, None))"

definition processStateDiff ::
  "rlp \<Rightarrow> Block \<Rightarrow> Block \<Rightarrow> world \<Rightarrow> (error option \<times> world) outcome" where
  "processStateDiff enc currentBlock parentBlock w =
     (let w1 = emit (BuildStateDiffCall (Root parentBlock) (Root currentBlock)
                       (Number currentBlock) (Hash currentBlock)) w
      in case Builder w1 (Root parentBlock) (Root currentBlock) (Number currentBlock) (Hash currentBlock) of
           Inl err \<Rightarrow> Returns (Some err, w1)
         | Inr stateDiff \<Rightarrow>
             (case EncodeStateDiff enc stateDiff of
                Inl err \<Rightarrow> Returns (Some err, w1)
              | Inr stateDiffRlp \<Rightarrow>
                  (let payload0 = \<lparr>StateDiffRlp = stateDiffRlp, BlockRlp = [], ReceiptsRlp = []\<rparr>;
                       (r, w2) =
                         (if StreamBlock w1
                          then (case EncodeBlock enc currentBlock of
                                  Inl err \<Rightarrow> (Inl err, w1)
                                | Inr blockRlp \<Rightarrow>
                                    (let w1' = emit (GetReceiptsByHashCall (Hash currentBlock)) w1;
                                         receipts = GetReceiptsByHash (BlockChain w1') (Hash currentBlock)
                                     in case EncodeReceipts enc receipts of
                                          Inl err \<Rightarrow> (Inl err, w1')
                                        | Inr receiptsRlp \<Rightarrow>
                                            (Inr (payload0\<lparr>BlockRlp := blockRlp, ReceiptsRlp := receiptsRlp\<rparr>), w1')))
                          else (Inr payload0, w1))
                   in case r of
                        Inl err \<Rightarrow> Returns (Some err, w2)
                      | Inr payload \<Rightarrow>
                          (let (isEmpty, err) = isEmptyPayload enc payload currentBlock;
                               w3 = (if err \<noteq> None
                                     then emit (Log LvlWarn ''Error checking if payload is empty'' []) w2
                                     else w2)
                           in if \<not> isEmpty
                              then (case send payload w3 of
                                      Returns w4 \<Rightarrow> Returns (None, w4)
                                    | Panics \<Rightarrow> Panics
                                    | Blocks \<Rightarrow> Blocks)
                              else Returns (None, w3)))))"

subsubsection \<open>Loop\<close>

text \<open>
  The \<^verbatim>\<open>chainEvent\<close> case of the \<^verbatim>\<open>select\<close> in \<^verbatim>\<open>Loop\<close>: what the loop does with one
  event before it waits again.
\<close>

definition onChainEvent :: "rlp \<Rightarrow> ChainEvent \<Rightarrow> world \<Rightarrow> world outcome" where
  "onChainEvent enc chainEvent w =
     (let w1 = emit (Log LvlDebug ''Event received from chainEventCh'' [EventArg chainEvent]) w
      in if LoadInt32 (subscribers w1) = 0
         then Returns (emit (Log LvlDebug
                 ''Currently no subscribers to the statediffing service; processing is halted'' []) w1)
         else
           (let currentBlock = Block chainEvent;
                parentHash = ParentHash currentBlock;
                (parentBlock, w2) =
                  (if lastBlock w1 \<noteq> None \<and> Hash (the (lastBlock w1)) = ParentHash currentBlock
                   then (lastBlock w1, w1)
                   else (GetBlockByHash (BlockChain w1) parentHash, emit (GetBlockByHashCall parentHash) w1));
                w3 = w2\<lparr>lastBlock := Some currentBlock\<rparr>
            in case parentBlock of
                 None \<Rightarrow>
                   Returns (emit (Log LvlError ''Parent block is nil, skipping this block (%d)''
                                    [NumArg (Number currentBlock)]) w3)
               | Some parent \<Rightarrow>
                   (case processStateDiff enc currentBlock parent w3 of
                      Returns (Some err, w4) \<Rightarrow>
                        Returns (emit (Log LvlError ''Error building statediff for block %d; error: ''
                                         [NumArg (Number currentBlock), ErrArg err]) w4)
                    | Returns (None, w4) \<Rightarrow> Returns w4
                    | Panics \<Rightarrow> Panics
                    | Blocks \<Rightarrow> Blocks)))"

text \<open>
  Which case of the \<^verbatim>\<open>select\<close> runs next is decided outside the service: the loop is run
  on the list of the cases that fire, in order.
\<close>

datatype select_case = ChainEventCase ChainEvent | ErrCase error | QuitCase

text \<open>
  The result tells whether \<^verbatim>\<open>Loop\<close> has returned (\<open>True\<close>) or waits in its \<^verbatim>\<open>select\<close>
  for the next case (\<open>False\<close>). The deferred \<^verbatim>\<open>chainEventSub.Unsubscribe()\<close> runs at the
  return.
\<close>

fun Loop_select :: "rlp \<Rightarrow> select_case list \<Rightarrow> world \<Rightarrow> (bool \<times> world) outcome" where
  "Loop_select enc [] w = Returns (False, w)"
| "Loop_select enc (ChainEventCase chainEvent # rest) w =
     (case onChainEvent enc chainEvent w of
        Returns w' \<Rightarrow> Loop_select enc rest w'
      | Panics \<Rightarrow> Panics
      | Blocks \<Rightarrow> Blocks)"
| "Loop_select enc (ErrCase err # rest) w =
     (case close (emit (Log LvlWarn ''Error from chain event subscription, breaking loop'' [ErrArg err]) w) of
        Returns w' \<Rightarrow> Returns (True, emit ChainEventSubUnsubscribeCall w')
      | Panics \<Rightarrow> Panics
      | Blocks \<Rightarrow> Blocks)"
| "Loop_select enc (QuitCase # rest) w =
     (case close (emit (Log LvlInfo ''Quitting the statediffing process'' []) w) of
        Returns w' \<Rightarrow> Returns (True, emit ChainEventSubUnsubscribeCall w')
      | Panics \<Rightarrow> Panics
      | Blocks \<Rightarrow> Blocks)"

definition Loop :: "rlp \<Rightarrow> select_case list \<Rightarrow> world \<Rightarrow> (bool \<times> world) outcome" where
  "Loop enc cases w = Loop_select enc cases (emit SubscribeChainEventCall w)"

subsection \<open>Vocabulary of the properties\<close>

text \<open>A channel that a send would panic on, and a channel on which a \<^verbatim>\<open>select\<close> with a
  \<^verbatim>\<open>default\<close> takes the \<^verbatim>\<open>default\<close>: it cannot accept a non-blocking write.\<close>

definition is_closed :: "(chan_ref \<rightharpoonup> 'a chan) \<Rightarrow> chan_ref \<Rightarrow> bool" where
  "is_closed h r = (case h r of None \<Rightarrow> False | Some c \<Rightarrow> closed c)"

definition would_block :: "(chan_ref \<rightharpoonup> 'a chan) \<Rightarrow> chan_ref \<Rightarrow> bool" where
  "would_block h r =
     (case h r of
        None \<Rightarrow> True
      | Some c \<Rightarrow> \<not> closed c \<and> recvq c = 0 \<and> dataqsiz c \<le> length (buf c))"

text \<open>No registered subscription holds a closed channel.\<close>

definition sinks_open :: "world \<Rightarrow> bool" where
  "sinks_open w =
     (\<forall>(sid, sub) \<in> set (Subscriptions w).
        \<not> is_closed (payloadChans w) (PayloadChan sub) \<and>
        \<not> is_closed (boolChans w) (Subscription.QuitChan sub))"

text \<open>Classes of trace events.\<close>

fun builder_call :: "effect \<Rightarrow> bool" where
  "builder_call (BuildStateDiffCall _ _ _ _) = True"
| "builder_call _ = False"

fun payload_send :: "effect \<Rightarrow> bool" where
  "payload_send (PayloadSend _ _ _) = True"
| "payload_send _ = False"

fun payload_to :: "rpc_id \<Rightarrow> effect \<Rightarrow> bool" where
  "payload_to sid (PayloadSend i _ _) = (i = sid)"
| "payload_to sid _ = False"

fun quit_to :: "rpc_id \<Rightarrow> effect \<Rightarrow> bool" where
  "quit_to sid (QuitSend i _) = (i = sid)"
| "quit_to sid _ = False"

text \<open>
  The counter is 0 or 1, and it is 1 whenever the map has an entry. The constructor
  establishes this and every method keeps it as long as calls run one at a time.
\<close>

definition gate_inv :: "world \<Rightarrow> bool" where
  "gate_inv w \<longleftrightarrow>
     (subscribers w = 0 \<or> subscribers w = 1) \<and> (Subscriptions w \<noteq> [] \<longrightarrow> subscribers w = 1)"

text \<open>The counter mirrors the map exactly: 1 when the map has an entry, else 0.\<close>

definition gate_exact :: "world \<Rightarrow> bool" where
  "gate_exact w \<longleftrightarrow> subscribers w = (if Subscriptions w = [] then 0 else 1)"

text \<open>The two stages of \<^verbatim>\<open>processStateDiff\<close>: building the payload (up to the first
  error), and the check for the empty diff with the broadcast.\<close>

definition assemble :: "rlp \<Rightarrow> Block \<Rightarrow> Block \<Rightarrow> world \<Rightarrow> (error + Payload) \<times> world" where
  "assemble enc currentBlock parentBlock w =
     (let w1 = emit (BuildStateDiffCall (Root parentBlock) (Root currentBlock)
                       (Number currentBlock) (Hash currentBlock)) w
      in case Builder w (Root parentBlock) (Root currentBlock) (Number currentBlock) (Hash currentBlock) of
           Inl err \<Rightarrow> (Inl err, w1)
         | Inr stateDiff \<Rightarrow>
             (case EncodeStateDiff enc stateDiff of
                Inl err \<Rightarrow> (Inl err, w1)
              | Inr stateDiffRlp \<Rightarrow>
                  if StreamBlock w
                  then (case EncodeBlock enc currentBlock of
                          Inl err \<Rightarrow> (Inl err, w1)
                        | Inr blockRlp \<Rightarrow>
                            (case EncodeReceipts enc (GetReceiptsByHash (BlockChain w) (Hash currentBlock)) of
                               Inl err \<Rightarrow> (Inl err, emit (GetReceiptsByHashCall (Hash currentBlock)) w1)
                             | Inr receiptsRlp \<Rightarrow>
                                 (Inr \<lparr>StateDiffRlp = stateDiffRlp, BlockRlp = blockRlp,
                                       ReceiptsRlp = receiptsRlp\<rparr>,
                                  emit (GetReceiptsByHashCall (Hash currentBlock)) w1)))
                  else (Inr \<lparr>StateDiffRlp = stateDiffRlp, BlockRlp = [], ReceiptsRlp = []\<rparr>, w1)))"

definition returning_nil :: "world outcome \<Rightarrow> (error option \<times> world) outcome" where
  "returning_nil r = (case r of Returns w \<Rightarrow> Returns (None, w) | Panics \<Rightarrow> Panics | Blocks \<Rightarrow> Blocks)"

definition deliver :: "rlp \<Rightarrow> Payload \<Rightarrow> Block \<Rightarrow> world \<Rightarrow> (error option \<times> world) outcome" where
  "deliver enc payload currentBlock w =
     (case getEmptyStateDiffRlpForBlock enc currentBlock of
        Inl err \<Rightarrow>
          returning_nil (send payload (emit (Log LvlWarn ''Error checking if payload is empty'' []) w))
      | Inr emptyStateDiffRlp \<Rightarrow>
          if StateDiffRlp payload = emptyStateDiffRlp then Returns (None, w)
          else returning_nil (send payload w))"

text \<open>The parent block that the loop resolves for an event: the cached block when its hash
  is the event's parent hash, else the result of the lookup.\<close>

definition parent_of :: "world \<Rightarrow> ChainEvent \<Rightarrow> Block option" where
  "parent_of w ev =
     (if lastBlock w \<noteq> None \<and> Hash (the (lastBlock w)) = ParentHash (Block ev)
      then lastBlock w
      else GetBlockByHash (BlockChain w) (ParentHash (Block ev)))"

text \<open>The worlds that the service reaches from its constructor when calls run one at a
  time, while the subscribers and other goroutines create, drain and fill channels.\<close>

inductive reachable :: "rlp \<Rightarrow> world \<Rightarrow> bool" for enc :: rlp where
  constructed: "reachable enc (NewStateDiffService builder chain streamBlock)"
| subscribed: "reachable enc w \<Longrightarrow> Subscribe sid pc qc w = Returns w' \<Longrightarrow> reachable enc w'"
| unsubscribed: "reachable enc w \<Longrightarrow> Unsubscribe sid w = Returns (err, w') \<Longrightarrow> reachable enc w'"
| stopped: "reachable enc w \<Longrightarrow> Stop w = Returns (err, w') \<Longrightarrow> reachable enc w'"
| event: "reachable enc w \<Longrightarrow> onChainEvent enc ev w = Returns w' \<Longrightarrow> reachable enc w'"
| closed: "reachable enc w \<Longrightarrow> close w = Returns w' \<Longrightarrow> reachable enc w'"
| channels: "reachable enc w \<Longrightarrow> reachable enc (w\<lparr>payloadChans := pcs, boolChans := bcs\<rparr>)"

text \<open>No other registered subscription holds the quit channel \<open>q\<close>.\<close>

definition sole_quit :: "world \<Rightarrow> rpc_id \<Rightarrow> chan_ref \<Rightarrow> bool" where
  "sole_quit w sid q = (\<forall>(k, s) \<in> set (Subscriptions w). k \<noteq> sid \<longrightarrow> Subscription.QuitChan s \<noteq> q)"

subsection \<open>Concrete worlds\<close>

text \<open>A builder that reports no account changes, a chain that knows no block, and an
  encoder that writes the block hash followed by the number of account deltas.\<close>

definition quietBuilder :: Builder where
  "quietBuilder oldRoot newRoot n h = Inr \<lparr>BlockNumber = n, BlockHash = h, AccountDiffs = []\<rparr>"

definition noChain :: blockChain where
  "noChain = \<lparr>GetBlockByHash = (\<lambda>h. None), GetReceiptsByHash = (\<lambda>h. [])\<rparr>"

definition hashCount :: rlp where
  "hashCount =
     \<lparr>EncodeStateDiff = (\<lambda>d. Inr (BlockHash d @ [of_nat (length (AccountDiffs d))])),
      EncodeBlock = (\<lambda>b. Inr (Hash b)),
      EncodeReceipts = (\<lambda>rs. Inr [of_nat (length rs)])\<rparr>"

definition fresh :: world where
  "fresh = NewStateDiffService quietBuilder noChain False"

text \<open>One subscriber \<open>a\<close> whose payload channel (capacity 1) and quit channel (capacity 1)
  are empty: the world after \<^verbatim>\<open>Subscribe("a", ...)\<close> on the fresh service.\<close>

definition one_sub :: world where
  "one_sub =
     fresh\<lparr>Subscriptions := [(''a'', \<lparr>PayloadChan = 1, Subscription.QuitChan = 2\<rparr>)],
           subscribers := 1,
           payloadChans := [1 \<mapsto> makechan 1],
           boolChans := [0 \<mapsto> makechan 0, 2 \<mapsto> makechan 1]\<rparr>"

text \<open>Two subscribers: the payload channel of \<open>a\<close> is unbuffered with no receiver, so a
  non-blocking write on it cannot proceed; the payload channel of \<open>b\<close> has room.\<close>

definition stalled :: world where
  "stalled =
     fresh\<lparr>Subscriptions := [(''a'', \<lparr>PayloadChan = 1, Subscription.QuitChan = 2\<rparr>),
                             (''b'', \<lparr>PayloadChan = 3, Subscription.QuitChan = 4\<rparr>)],
           subscribers := 1,
           payloadChans := [1 \<mapsto> makechan 0, 3 \<mapsto> makechan 1],
           boolChans := [0 \<mapsto> makechan 0, 2 \<mapsto> makechan 1, 4 \<mapsto> makechan 1]\<rparr>"

text \<open>As \<open>stalled\<close>, but the quit channel of \<open>a\<close> is unbuffered with no receiver too.\<close>

definition deaf :: world where
  "deaf = stalled\<lparr>boolChans := [0 \<mapsto> makechan 0, 2 \<mapsto> makechan 0, 4 \<mapsto> makechan 1]\<rparr>"

text \<open>The fresh service after \<^verbatim>\<open>Unsubscribe\<close> of an id that was never subscribed.\<close>

definition leaked :: world where
  "leaked = fresh\<lparr>Mutex := True,
                    trace := [Log LvlInfo ''Unsubscribing from the statediff service'' []]\<rparr>"

definition stopped_once :: world where
  "stopped_once =
     fresh\<lparr>boolChans := [0 \<mapsto> \<lparr>closed = True, recvq = 0, dataqsiz = 0, buf = []\<rparr>],
           trace := [Log LvlInfo ''Stopping statediff service'' []]\<rparr>"

definition block0 :: Block where
  "block0 = \<lparr>Hash = [0], ParentHash = [], Number = 0, Root = [10]\<rparr>"

definition block1 :: Block where
  "block1 = \<lparr>Hash = [1], ParentHash = [0], Number = 1, Root = [11]\<rparr>"

definition idle_once :: world where
  "idle_once =
     fresh\<lparr>trace :=
       [Log LvlDebug ''Event received from chainEventCh'' [EventArg \<lparr>Block = block1\<rparr>],
        Log LvlDebug ''Currently no subscribers to the statediffing service; processing is halted'' []]\<rparr>"

definition failing_sub :: world where
  "failing_sub = one_sub\<lparr>Builder := (\<lambda>oldRoot newRoot n h. Inl (ErrExternal ''no state'')),
                         lastBlock := Some block0\<rparr>"




definition payload1 :: Payload where
  "payload1 = \<lparr>StateDiffRlp = [1, 1], BlockRlp = [], ReceiptsRlp = []\<rparr>"



section \<open>Properties\<close>

subsection \<open>Records, traces and the concrete worlds\<close>

lemma emit_sel:
  "Mutex (emit e w) = Mutex w" "Subscriptions (emit e w) = Subscriptions w"
  "subscribers (emit e w) = subscribers w" "lastBlock (emit e w) = lastBlock w"
  "BlockChain (emit e w) = BlockChain w" "Builder (emit e w) = Builder w"
  "payloadChans (emit e w) = payloadChans w" "boolChans (emit e w) = boolChans w"
  "StreamBlock (emit e w) = StreamBlock w" "QuitChan (emit e w) = QuitChan w"
  "trace (emit e w) = trace w @ [e]"
  by (simp_all add: emit_def)

lemma trace_only:
  assumes "w2 = w\<lparr>trace := t\<rparr>"
  shows "Mutex w2 = Mutex w" and "Subscriptions w2 = Subscriptions w"
    and "payloadChans w2 = payloadChans w" and "boolChans w2 = boolChans w"
    and "subscribers w2 = subscribers w" and "lastBlock w2 = lastBlock w"
    and "gate_inv w2 = gate_inv w" and "sinks_open w2 = sinks_open w"
  using assms by (simp_all add: gate_inv_def sinks_open_def)

lemma cached_frame:
  assumes "w3\<lparr>trace := t\<rparr> = w\<lparr>lastBlock := b, trace := t\<rparr>"
  shows "lastBlock w3 = b" and "Mutex w3 = Mutex w" and "Subscriptions w3 = Subscriptions w"
    and "payloadChans w3 = payloadChans w" and "boolChans w3 = boolChans w"
    and "subscribers w3 = subscribers w" and "Builder w3 = Builder w"
proof -
  have "lastBlock (w3\<lparr>trace := t\<rparr>) = lastBlock (w\<lparr>lastBlock := b, trace := t\<rparr>)"
    and "Mutex (w3\<lparr>trace := t\<rparr>) = Mutex (w\<lparr>lastBlock := b, trace := t\<rparr>)"
    and "Subscriptions (w3\<lparr>trace := t\<rparr>) = Subscriptions (w\<lparr>lastBlock := b, trace := t\<rparr>)"
    and "payloadChans (w3\<lparr>trace := t\<rparr>) = payloadChans (w\<lparr>lastBlock := b, trace := t\<rparr>)"
    and "boolChans (w3\<lparr>trace := t\<rparr>) = boolChans (w\<lparr>lastBlock := b, trace := t\<rparr>)"
    and "subscribers (w3\<lparr>trace := t\<rparr>) = subscribers (w\<lparr>lastBlock := b, trace := t\<rparr>)"
    and "Builder (w3\<lparr>trace := t\<rparr>) = Builder (w\<lparr>lastBlock := b, trace := t\<rparr>)"
    by (simp_all only: assms)
  then show "lastBlock w3 = b" and "Mutex w3 = Mutex w" and "Subscriptions w3 = Subscriptions w"
    and "payloadChans w3 = payloadChans w" and "boolChans w3 = boolChans w"
    and "subscribers w3 = subscribers w" and "Builder w3 = Builder w"
    by simp_all
qed

lemma emitted_append: "trace w' = trace w @ evs \<Longrightarrow> emitted w w' = evs"
  by (simp add: emitted_def)

lemma emitted_trans:
  assumes "trace w1 = trace w @ emitted w w1" and "trace w2 = trace w1 @ emitted w1 w2"
  shows "emitted w w2 = emitted w w1 @ emitted w1 w2"
    and "trace w2 = trace w @ emitted w w2"
proof -
  have "trace w2 = trace w @ (emitted w w1 @ emitted w1 w2)"
    using assms by simp
  then show "emitted w w2 = emitted w w1 @ emitted w1 w2" by (rule emitted_append)
  with assms show "trace w2 = trace w @ emitted w w2" by simp
qed

lemma keys_delete: "fst ` set (AList.delete k al) = fst ` set al - {k}"
proof -
  have "set (map fst (AList.delete k al)) = set (map fst al) - {k}"
    by (simp add: delete_keys)
  then show ?thesis by simp
qed

lemma fresh_simps:
  "\<not> Mutex fresh" "Subscriptions fresh = []" "subscribers fresh = 0" "lastBlock fresh = None"
  "QuitChan fresh = 0" "boolChans fresh = [0 \<mapsto> makechan 0]" "payloadChans fresh = Map.empty"
  "trace fresh = []" "Builder fresh = quietBuilder" "BlockChain fresh = noChain"
  "\<not> StreamBlock fresh"
  by (simp_all add: fresh_def NewStateDiffService_def)

lemma one_sub_simps:
  "\<not> Mutex one_sub"
  "Subscriptions one_sub = [(''a'', \<lparr>PayloadChan = 1, Subscription.QuitChan = 2\<rparr>)]"
  "payloadChans one_sub = [1 \<mapsto> makechan 1]"
  "boolChans one_sub = [0 \<mapsto> makechan 0, 2 \<mapsto> makechan 1]"
  "subscribers one_sub = 1"
  "QuitChan one_sub = 0"
  "lastBlock one_sub = None"
  "trace one_sub = []"
  by (simp_all add: one_sub_def fresh_def NewStateDiffService_def)

lemma stalled_simps:
  "\<not> Mutex stalled"
  "Subscriptions stalled = [(''a'', \<lparr>PayloadChan = 1, Subscription.QuitChan = 2\<rparr>),
                             (''b'', \<lparr>PayloadChan = 3, Subscription.QuitChan = 4\<rparr>)]"
  "payloadChans stalled = [1 \<mapsto> makechan 0, 3 \<mapsto> makechan 1]"
  "boolChans stalled = [0 \<mapsto> makechan 0, 2 \<mapsto> makechan 1, 4 \<mapsto> makechan 1]"
  "subscribers stalled = 1"
  by (simp_all add: stalled_def fresh_def NewStateDiffService_def)

lemma failing_sub_simps:
  "subscribers failing_sub = 1" "lastBlock failing_sub = Some block0"
  "Builder failing_sub = (\<lambda>oldRoot newRoot n h. Inl (ErrExternal ''no state''))"
  by (simp_all add: failing_sub_def one_sub_simps)

subsection \<open>Channels\<close>

lemma selectnbsend_panics: "selectnbsend h r v = None \<longleftrightarrow> is_closed h r"
  by (auto simp add: selectnbsend_def is_closed_def split: option.splits)

lemma selectnbsend_default: "selectnbsend h r v = Some (False, h') \<longleftrightarrow> would_block h r \<and> h' = h"
  by (auto simp add: selectnbsend_def would_block_def split: option.splits)

lemma selectnbsend_sent: "selectnbsend h r v = Some (True, h') \<Longrightarrow> \<not> would_block h r"
  by (auto simp add: selectnbsend_def would_block_def split: option.splits if_splits)

lemma selectnbsend_is_closed:
  "selectnbsend h r v = Some (ok, h') \<Longrightarrow> is_closed h' r' = is_closed h r'"
  by (auto simp add: selectnbsend_def is_closed_def split: option.splits if_splits)

lemma selectnbsend_would_block:
  "selectnbsend h r v = Some (ok, h') \<Longrightarrow> would_block h r' \<Longrightarrow> would_block h' r'"
  by (auto simp add: selectnbsend_def would_block_def split: option.splits if_splits)

subsection \<open>Subscribe and Unsubscribe\<close>

lemma Subscribe_returns:
  assumes "\<not> Mutex w"
  shows "\<exists>w'. Subscribe sid pc qc w = Returns w' \<and>
              Subscriptions w' =
                AList.update sid \<lparr>PayloadChan = pc, Subscription.QuitChan = qc\<rparr> (Subscriptions w) \<and>
              subscribers w' = (if subscribers w = 0 then 1 else subscribers w) \<and>
              \<not> Mutex w' \<and> payloadChans w' = payloadChans w \<and> boolChans w' = boolChans w"
  using assms
  by (simp add: Subscribe_def Subscribe_cas_def Subscribe_insert_def emit_def Lock_def Unlock_def CompareAndSwapInt32_def Let_def)

lemma Unsubscribe_unknown:
  assumes "\<not> Mutex w" and "map_of (Subscriptions w) sid = None"
  shows "Unsubscribe sid w =
           Returns (Some (ErrNoSubscription sid),
                    (emit (Log LvlInfo ''Unsubscribing from the statediff service'' []) w)\<lparr>Mutex := True\<rparr>)"
  using assms by (simp add: Unsubscribe_def emit_def Lock_def)

lemma Unsubscribe_known:
  assumes "\<not> Mutex w" and "map_of (Subscriptions w) sid = Some sub"
  shows "\<exists>w'. Unsubscribe sid w = Returns (None, w') \<and>
               Subscriptions w' = AList.delete sid (Subscriptions w) \<and>
               \<not> Mutex w' \<and>
               subscribers w' = (if AList.delete sid (Subscriptions w) = [] \<and> subscribers w = 1
                                 then 0 else subscribers w) \<and>
               payloadChans w' = payloadChans w \<and> boolChans w' = boolChans w"
  using assms
  by (simp add: Unsubscribe_def emit_def Lock_def Unlock_def Let_def CompareAndSwapInt32_def)

text \<open>
  Claim C7. When the mutex is free, \<^verbatim>\<open>Unsubscribe\<close> with an id that the map does not hold
  returns the not-found error and leaves the map, the counter and the channels as they
  were; with an id that the map holds it returns nil and the map afterwards is the map
  before without that id.
\<close>

theorem Unsubscribe_not_found_or_removed:
  assumes "\<not> Mutex w"
  shows "(map_of (Subscriptions w) sid = None \<longrightarrow>
            (\<exists>w'. Unsubscribe sid w = Returns (Some (ErrNoSubscription sid), w') \<and>
                  Subscriptions w' = Subscriptions w \<and> subscribers w' = subscribers w \<and>
                  payloadChans w' = payloadChans w \<and> boolChans w' = boolChans w)) \<and>
         (map_of (Subscriptions w) sid \<noteq> None \<longrightarrow>
            (\<exists>w'. Unsubscribe sid w = Returns (None, w') \<and>
                  map_of (Subscriptions w') = (map_of (Subscriptions w))(sid := None)))"
proof (intro conjI impI)
  assume n: "map_of (Subscriptions w) sid = None"
  show "\<exists>w'. Unsubscribe sid w = Returns (Some (ErrNoSubscription sid), w') \<and>
           Subscriptions w' = Subscriptions w \<and> subscribers w' = subscribers w \<and>
           payloadChans w' = payloadChans w \<and> boolChans w' = boolChans w"
    using Unsubscribe_unknown [OF assms n] by (simp add: emit_def)
next
  assume "map_of (Subscriptions w) sid \<noteq> None"
  then obtain sub where s: "map_of (Subscriptions w) sid = Some sub" by auto
  from Unsubscribe_known [OF assms s] obtain w' where
    "Unsubscribe sid w = Returns (None, w')" "Subscriptions w' = AList.delete sid (Subscriptions w)"
    by blast
  then show "\<exists>w'. Unsubscribe sid w = Returns (None, w') \<and>
           map_of (Subscriptions w') = (map_of (Subscriptions w))(sid := None)"
    by (simp add: delete_conv')
qed

theorem Unsubscribe_not_found_or_removed_witness:
  "\<not> Mutex one_sub \<and>
   map_of (Subscriptions one_sub) ''b'' = None \<and>
   (\<exists>w'. Unsubscribe ''b'' one_sub = Returns (Some (ErrNoSubscription ''b''), w') \<and>
         Subscriptions w' = Subscriptions one_sub \<and> subscribers w' = subscribers one_sub \<and>
         payloadChans w' = payloadChans one_sub \<and> boolChans w' = boolChans one_sub) \<and>
   map_of (Subscriptions one_sub) ''a'' \<noteq> None \<and>
   (\<exists>w'. Unsubscribe ''a'' one_sub = Returns (None, w') \<and>
         map_of (Subscriptions w') = (map_of (Subscriptions one_sub))(''a'' := None))"
proof -
  have m: "\<not> Mutex one_sub"
    by (simp add: one_sub_def fresh_def NewStateDiffService_def)
  have b: "map_of (Subscriptions one_sub) ''b'' = None"
    by (simp add: one_sub_def)
  have a: "map_of (Subscriptions one_sub) ''a'' \<noteq> None"
    by (simp add: one_sub_def)
  show ?thesis
    using m a b Unsubscribe_not_found_or_removed [OF m, of "''a''"]
          Unsubscribe_not_found_or_removed [OF m, of "''b''"]
    by blast
qed

text \<open>
  Claim C10, at the input where the code departs from it: \<^verbatim>\<open>Unsubscribe\<close> of an id that
  was never subscribed, on the fresh service, returns the error with the mutex still held,
  and a \<^verbatim>\<open>Subscribe\<close> that follows blocks on it.
\<close>

theorem Unsubscribe_unknown_keeps_lock:
  "Unsubscribe ''a'' fresh = Returns (Some (ErrNoSubscription ''a''), leaked) \<and>
   Mutex leaked \<and>
   Subscribe ''b'' 1 2 leaked = Blocks"
  by (simp add: Unsubscribe_def Subscribe_def Subscribe_cas_def Subscribe_insert_def leaked_def fresh_def NewStateDiffService_def
        emit_def Lock_def CompareAndSwapInt32_def)

subsection \<open>send\<close>

lemma send_visit_cases:
  assumes "send_visit p sid sub w = Returns w'"
  shows "(\<exists>pcs. selectnbsend (payloadChans w) (PayloadChan sub) p = Some (True, pcs) \<and>
            w' = w\<lparr>payloadChans := pcs,
                   trace := trace w @ [PayloadSend sid p True,
                     Log LvlInfo ''sending state diff payload to subscription %s'' [IdArg sid]]\<rparr>) \<or>
         (would_block (payloadChans w) (PayloadChan sub) \<and>
          (\<exists>ok bcs. selectnbsend (boolChans w) (Subscription.QuitChan sub) True = Some (ok, bcs) \<and>
            w' = w\<lparr>boolChans := bcs, Subscriptions := AList.delete sid (Subscriptions w),
                   trace := trace w @ [PayloadSend sid p False,
                     Log LvlInfo ''unable to send payload to subscription %s; channel has no receiver'' [IdArg sid],
                     QuitSend sid ok,
                     Log LvlInfo (if ok then ''closing subscription %s''
                                  else ''unable to close subscription %s; channel has no receiver'') [IdArg sid]]\<rparr>))"
proof (cases "selectnbsend (payloadChans w) (PayloadChan sub) p")
  case None
  with assms show ?thesis by (simp add: send_visit_def)
next
  case (Some a)
  obtain ok pcs where a: "a = (ok, pcs)" by (cases a)
  show ?thesis
  proof (cases ok)
    case True
    with assms Some a show ?thesis by (simp add: send_visit_def emit_def)
  next
    case False
    with Some a have wb: "would_block (payloadChans w) (PayloadChan sub)"
      by (simp add: selectnbsend_default)
    show ?thesis
    proof (cases "selectnbsend (boolChans w) (Subscription.QuitChan sub) True")
      case None
      with assms \<open>selectnbsend (payloadChans w) (PayloadChan sub) p = Some a\<close> a False
      show ?thesis by (simp add: send_visit_def emit_def)
    next
      case (Some b)
      obtain ok' bcs where b: "b = (ok', bcs)" by (cases b)
      from assms \<open>selectnbsend (payloadChans w) (PayloadChan sub) p = Some a\<close> a False Some b
      have "w' = w\<lparr>boolChans := bcs, Subscriptions := AList.delete sid (Subscriptions w),
                   trace := trace w @ [PayloadSend sid p False,
                     Log LvlInfo ''unable to send payload to subscription %s; channel has no receiver'' [IdArg sid],
                     QuitSend sid ok',
                     Log LvlInfo (if ok' then ''closing subscription %s''
                                  else ''unable to close subscription %s; channel has no receiver'') [IdArg sid]]\<rparr>"
        by (auto simp add: send_visit_def emit_def Let_def)
      with wb Some b show ?thesis by blast
    qed
  qed
qed

lemma send_visit_service:
  "send_visit p sid sub w = Returns w' \<Longrightarrow>
     Mutex w' = Mutex w \<and> subscribers w' = subscribers w \<and> lastBlock w' = lastBlock w \<and>
     StreamBlock w' = StreamBlock w \<and> Builder w' = Builder w \<and> BlockChain w' = BlockChain w \<and>
     QuitChan w' = QuitChan w"
  by (drule send_visit_cases) auto

lemma send_visit_is_closed:
  "send_visit p sid sub w = Returns w' \<Longrightarrow>
     is_closed (payloadChans w') r = is_closed (payloadChans w) r \<and>
     is_closed (boolChans w') r = is_closed (boolChans w) r"
  by (drule send_visit_cases) (auto simp add: selectnbsend_is_closed)

lemma send_visit_would_block:
  "send_visit p sid sub w = Returns w' \<Longrightarrow> would_block (payloadChans w) r \<Longrightarrow>
     would_block (payloadChans w') r"
  by (drule send_visit_cases) (auto dest: selectnbsend_would_block)

lemma send_visit_keys:
  "send_visit p sid sub w = Returns w' \<Longrightarrow>
     Subscriptions w' = Subscriptions w \<or> Subscriptions w' = AList.delete sid (Subscriptions w)"
  by (drule send_visit_cases) auto

lemma send_visit_returns:
  assumes "\<not> is_closed (payloadChans w) (PayloadChan sub)"
      and "\<not> is_closed (boolChans w) (Subscription.QuitChan sub)"
  shows "\<exists>w'. send_visit p sid sub w = Returns w'"
proof -
  from assms obtain ok pcs where a: "selectnbsend (payloadChans w) (PayloadChan sub) p = Some (ok, pcs)"
    by (cases "selectnbsend (payloadChans w) (PayloadChan sub) p") (auto simp add: selectnbsend_panics)
  from assms obtain ok' bcs where b: "selectnbsend (boolChans w) (Subscription.QuitChan sub) True = Some (ok', bcs)"
    by (cases "selectnbsend (boolChans w) (Subscription.QuitChan sub) True") (auto simp add: selectnbsend_panics)
  show ?thesis using a b by (cases ok) (simp_all add: send_visit_def emit_def Let_def)
qed

lemma send_visit_extends:
  "send_visit p sid sub w = Returns w' \<Longrightarrow> trace w' = trace w @ emitted w w'"
  by (drule send_visit_cases) (auto simp add: emitted_def)

lemma send_visit_events:
  assumes "send_visit p sid sub w = Returns w'"
  shows "length (filter (payload_to sid) (emitted w w')) = 1"
    and "k \<noteq> sid \<Longrightarrow> filter (payload_to k) (emitted w w') = []"
    and "k \<noteq> sid \<Longrightarrow> filter (quit_to k) (emitted w w') = []"
    and "filter builder_call (emitted w w') = []"
  using send_visit_cases [OF assms] by (auto simp add: emitted_def)


lemma send_visit_evicts:
  assumes "send_visit p sid sub w = Returns w'"
      and "would_block (payloadChans w) (PayloadChan sub)"
  shows "filter (payload_to sid) (emitted w w') = [PayloadSend sid p False]"
    and "length (filter (quit_to sid) (emitted w w')) = 1"
    and "Subscriptions w' = AList.delete sid (Subscriptions w)"
  using send_visit_cases [OF assms(1)] assms(2)
  by (auto simp add: emitted_def dest: selectnbsend_sent)

lemma send_range_service:
  "send_range p xs w = Returns w' \<Longrightarrow>
     Mutex w' = Mutex w \<and> subscribers w' = subscribers w \<and> lastBlock w' = lastBlock w \<and>
     StreamBlock w' = StreamBlock w \<and> Builder w' = Builder w \<and> BlockChain w' = BlockChain w \<and>
     QuitChan w' = QuitChan w"
proof (induction xs arbitrary: w)
  case Nil
  then show ?case by simp
next
  case (Cons x xs)
  obtain sid sub where x: "x = (sid, sub)" by (cases x)
  from Cons.prems x obtain w1 where 1: "send_visit p sid sub w = Returns w1"
    and 2: "send_range p xs w1 = Returns w'"
    by (auto split: outcome.splits)
  from send_visit_service [OF 1] Cons.IH [OF 2] show ?case by simp
qed

lemma send_range_is_closed:
  "send_range p xs w = Returns w' \<Longrightarrow>
     is_closed (payloadChans w') r = is_closed (payloadChans w) r \<and>
     is_closed (boolChans w') r = is_closed (boolChans w) r"
proof (induction xs arbitrary: w)
  case Nil
  then show ?case by simp
next
  case (Cons x xs)
  obtain sid sub where x: "x = (sid, sub)" by (cases x)
  from Cons.prems x obtain w1 where 1: "send_visit p sid sub w = Returns w1"
    and 2: "send_range p xs w1 = Returns w'"
    by (auto split: outcome.splits)
  from send_visit_is_closed [OF 1] Cons.IH [OF 2] show ?case by simp
qed

lemma send_range_would_block:
  "send_range p xs w = Returns w' \<Longrightarrow> would_block (payloadChans w) r \<Longrightarrow>
     would_block (payloadChans w') r"
proof (induction xs arbitrary: w)
  case Nil
  then show ?case by simp
next
  case (Cons x xs)
  obtain sid sub where x: "x = (sid, sub)" by (cases x)
  from Cons.prems x obtain w1 where 1: "send_visit p sid sub w = Returns w1"
    and 2: "send_range p xs w1 = Returns w'"
    by (auto split: outcome.splits)
  from send_visit_would_block [OF 1 Cons.prems(2)] Cons.IH [OF 2] show ?case by simp
qed

lemma send_range_keys:
  "send_range p xs w = Returns w' \<Longrightarrow>
     fst ` set (Subscriptions w') \<subseteq> fst ` set (Subscriptions w)"
proof (induction xs arbitrary: w)
  case Nil
  then show ?case by simp
next
  case (Cons x xs)
  obtain sid sub where x: "x = (sid, sub)" by (cases x)
  from Cons.prems x obtain w1 where 1: "send_visit p sid sub w = Returns w1"
    and 2: "send_range p xs w1 = Returns w'"
    by (auto split: outcome.splits)
  have "fst ` set (Subscriptions w1) \<subseteq> fst ` set (Subscriptions w)"
  proof (cases "Subscriptions w1 = Subscriptions w")
    case True
    then show ?thesis by simp
  next
    case False
    with send_visit_keys [OF 1] have "Subscriptions w1 = AList.delete sid (Subscriptions w)"
      by simp
    then show ?thesis by (simp add: dom_delete_subset)
  qed
  with Cons.IH [OF 2] show ?case by blast
qed

lemma send_range_returns:
  assumes "\<forall>(sid, sub) \<in> set xs.
             \<not> is_closed (payloadChans w) (PayloadChan sub) \<and>
             \<not> is_closed (boolChans w) (Subscription.QuitChan sub)"
  shows "\<exists>w'. send_range p xs w = Returns w'"
  using assms
proof (induction xs arbitrary: w)
  case Nil
  then show ?case by simp
next
  case (Cons x xs)
  obtain sid sub where x: "x = (sid, sub)" by (cases x)
  from Cons.prems x obtain w1 where 1: "send_visit p sid sub w = Returns w1"
    using send_visit_returns [of w sub p sid] by auto
  have "\<forall>(sid, sub) \<in> set xs.
             \<not> is_closed (payloadChans w1) (PayloadChan sub) \<and>
             \<not> is_closed (boolChans w1) (Subscription.QuitChan sub)"
    using Cons.prems send_visit_is_closed [OF 1] by auto
  from Cons.IH [OF this] obtain w' where "send_range p xs w1 = Returns w'" by blast
  with 1 x show ?case by simp
qed

lemma send_range_extends:
  "send_range p xs w = Returns w' \<Longrightarrow> trace w' = trace w @ emitted w w'"
proof (induction xs arbitrary: w)
  case Nil
  then show ?case by (simp add: emitted_def)
next
  case (Cons x xs)
  obtain sid sub where x: "x = (sid, sub)" by (cases x)
  from Cons.prems x obtain w1 where 1: "send_visit p sid sub w = Returns w1"
    and 2: "send_range p xs w1 = Returns w'"
    by (auto split: outcome.splits)
  from emitted_trans(2) [OF send_visit_extends [OF 1] Cons.IH [OF 2]] show ?case .
qed

lemma send_range_foreign:
  assumes "send_range p xs w = Returns w'" and "k \<notin> fst ` set xs"
  shows "filter (payload_to k) (emitted w w') = [] \<and> filter (quit_to k) (emitted w w') = []"
  using assms
proof (induction xs arbitrary: w)
  case Nil
  then show ?case by (simp add: emitted_def)
next
  case (Cons x xs)
  obtain sid sub where x: "x = (sid, sub)" by (cases x)
  from Cons.prems x obtain w1 where 1: "send_visit p sid sub w = Returns w1"
    and 2: "send_range p xs w1 = Returns w'"
    by (auto split: outcome.splits)
  from Cons.prems x have ne: "k \<noteq> sid" and notin: "k \<notin> fst ` set xs" by auto
  have e: "emitted w w' = emitted w w1 @ emitted w1 w'"
    by (rule emitted_trans(1) [OF send_visit_extends [OF 1] send_range_extends [OF 2]])
  show ?case
    using send_visit_events(2,3) [OF 1 ne] Cons.IH [OF 2 notin] by (simp add: e)
qed


lemma send_range_evicts:
  assumes "send_range p xs w = Returns w'" and "distinct (map fst xs)"
      and "(k, s) \<in> set xs" and "would_block (payloadChans w) (PayloadChan s)"
  shows "filter (payload_to k) (emitted w w') = [PayloadSend k p False] \<and>
         length (filter (quit_to k) (emitted w w')) = 1 \<and>
         k \<notin> fst ` set (Subscriptions w')"
  using assms
proof (induction xs arbitrary: w)
  case Nil
  then show ?case by simp
next
  case (Cons x xs)
  obtain sid sub where x: "x = (sid, sub)" by (cases x)
  from Cons.prems x obtain w1 where 1: "send_visit p sid sub w = Returns w1"
    and 2: "send_range p xs w1 = Returns w'"
    by (auto split: outcome.splits)
  from Cons.prems x have d: "distinct (map fst xs)" and fresh: "sid \<notin> fst ` set xs" by auto
  have e: "emitted w w' = emitted w w1 @ emitted w1 w'"
    by (rule emitted_trans(1) [OF send_visit_extends [OF 1] send_range_extends [OF 2]])
  show ?case
  proof (cases "k = sid")
    case True
    with Cons.prems(3) x fresh have "s = sub" by force
    with Cons.prems(4) have wb: "would_block (payloadChans w) (PayloadChan sub)" by simp
    have "sid \<notin> fst ` set (Subscriptions w1)"
      using send_visit_evicts(3) [OF 1 wb] delete_notin_dom [of sid "Subscriptions w"] by simp
    with send_range_keys [OF 2] have "sid \<notin> fst ` set (Subscriptions w')" by blast
    with True send_visit_evicts(1,2) [OF 1 wb] send_range_foreign [OF 2 fresh] show ?thesis
      by (simp add: e)
  next
    case False
    with Cons.prems(3) x have in_rest: "(k, s) \<in> set xs" by auto
    then have "k \<in> fst ` set xs" by force
    have wb1: "would_block (payloadChans w1) (PayloadChan s)"
      by (rule send_visit_would_block [OF 1 Cons.prems(4)])
    from Cons.IH [OF 2 d in_rest wb1] send_visit_events(2,3) [OF 1 False] show ?thesis
      by (simp add: e)
  qed
qed

lemma send_unfold:
  assumes "send p w = Returns w'"
  obtains w2 where "\<not> Mutex w"
    and "send_range p (Subscriptions w) (w\<lparr>Mutex := True\<rparr>) = Returns w2"
    and "w' = (if Subscriptions w2 = [] \<and> subscribers w2 = 1
               then w2\<lparr>Mutex := False, subscribers := 0,
                      trace := trace w2 @ [Log LvlInfo ''No more subscriptions; halting statediff processing'' []]\<rparr>
               else w2\<lparr>Mutex := False\<rparr>)"
  using assms
  by (auto simp add: send_def Lock_def Unlock_def emit_def CompareAndSwapInt32_def Let_def
           split: if_splits outcome.splits)

lemma send_returns:
  assumes "\<not> Mutex w" and "sinks_open w"
  shows "\<exists>w'. send p w = Returns w'"
proof -
  have "\<forall>(sid, sub) \<in> set (Subscriptions w).
             \<not> is_closed (payloadChans (w\<lparr>Mutex := True\<rparr>)) (PayloadChan sub) \<and>
             \<not> is_closed (boolChans (w\<lparr>Mutex := True\<rparr>)) (Subscription.QuitChan sub)"
    using assms(2) by (simp add: sinks_open_def)
  from send_range_returns [OF this] obtain w2
    where "send_range p (Subscriptions w) (w\<lparr>Mutex := True\<rparr>) = Returns w2" by blast
  with assms(1) show ?thesis
    by (simp add: send_def Lock_def Let_def split: prod.splits)
qed

lemma send_frame:
  assumes "send p w = Returns w'"
  shows "lastBlock w' = lastBlock w" and "\<not> Mutex w" and "\<not> Mutex w'"
    and "trace w' = trace w @ emitted w w'"
    and "Builder w' = Builder w" and "BlockChain w' = BlockChain w"
    and "StreamBlock w' = StreamBlock w" and "QuitChan w' = QuitChan w"
proof -
  from assms obtain w2 where m: "\<not> Mutex w"
    and r: "send_range p (Subscriptions w) (w\<lparr>Mutex := True\<rparr>) = Returns w2"
    and w': "w' = (if Subscriptions w2 = [] \<and> subscribers w2 = 1
               then w2\<lparr>Mutex := False, subscribers := 0,
                      trace := trace w2 @ [Log LvlInfo ''No more subscriptions; halting statediff processing'' []]\<rparr>
               else w2\<lparr>Mutex := False\<rparr>)"
    by (rule send_unfold)
  note f = send_range_service [OF r]
  from f w' show "lastBlock w' = lastBlock w" by simp
  from m show "\<not> Mutex w" .
  from w' show "\<not> Mutex w'" by simp
  from f w' show "Builder w' = Builder w" by simp
  from f w' show "BlockChain w' = BlockChain w" by simp
  from f w' show "StreamBlock w' = StreamBlock w" by simp
  from f w' show "QuitChan w' = QuitChan w" by simp
  from send_range_extends [OF r] have t: "trace w2 = trace w @ emitted (w\<lparr>Mutex := True\<rparr>) w2"
    by simp
  have "\<exists>evs. trace w' = trace w @ evs"
  proof (cases "Subscriptions w2 = [] \<and> subscribers w2 = 1")
    case True
    with w' t show ?thesis by simp
  next
    case False
    with w' t show ?thesis by auto
  qed
  then show "trace w' = trace w @ emitted w w'" by (auto simp add: emitted_def)
qed

lemma send_events:
  assumes "send p w = Returns w'"
  obtains w2 where "send_range p (Subscriptions w) (w\<lparr>Mutex := True\<rparr>) = Returns w2"
    and "Subscriptions w' = Subscriptions w2"
    and "filter (payload_to k) (emitted w w') = filter (payload_to k) (emitted (w\<lparr>Mutex := True\<rparr>) w2)"
    and "filter (quit_to k) (emitted w w') = filter (quit_to k) (emitted (w\<lparr>Mutex := True\<rparr>) w2)"
    and "filter builder_call (emitted w w') = filter builder_call (emitted (w\<lparr>Mutex := True\<rparr>) w2)"
proof -
  from assms obtain w2 where r: "send_range p (Subscriptions w) (w\<lparr>Mutex := True\<rparr>) = Returns w2"
    and w': "w' = (if Subscriptions w2 = [] \<and> subscribers w2 = 1
               then w2\<lparr>Mutex := False, subscribers := 0,
                      trace := trace w2 @ [Log LvlInfo ''No more subscriptions; halting statediff processing'' []]\<rparr>
               else w2\<lparr>Mutex := False\<rparr>)"
    by (rule send_unfold)
  from send_range_extends [OF r]
  have t: "trace w2 = trace w @ emitted (w\<lparr>Mutex := True\<rparr>) w2" by simp
  have "emitted w w' = emitted (w\<lparr>Mutex := True\<rparr>) w2 \<or>
        emitted w w' = emitted (w\<lparr>Mutex := True\<rparr>) w2 @
                         [Log LvlInfo ''No more subscriptions; halting statediff processing'' []]"
    using w' t by (auto intro: emitted_append)
  then have "filter (payload_to k) (emitted w w') = filter (payload_to k) (emitted (w\<lparr>Mutex := True\<rparr>) w2)"
    and "filter (quit_to k) (emitted w w') = filter (quit_to k) (emitted (w\<lparr>Mutex := True\<rparr>) w2)"
    and "filter builder_call (emitted w w') = filter builder_call (emitted (w\<lparr>Mutex := True\<rparr>) w2)"
    by auto
  moreover have "Subscriptions w' = Subscriptions w2" using w' by simp
  ultimately show thesis using r that by blast
qed


lemma selectnbsend_other:
  "selectnbsend h r v = Some (ok, h') \<Longrightarrow> r' \<noteq> r \<Longrightarrow> h' r' = h r'"
  by (auto simp add: selectnbsend_def split: option.splits if_splits)

lemma selectnbsend_blocked_same:
  "selectnbsend h r v = Some (ok, h') \<Longrightarrow> would_block h r' \<Longrightarrow> h' r' = h r'"
  by (auto simp add: selectnbsend_def would_block_def split: option.splits if_splits)

lemma send_visit_bool_other:
  assumes "send_visit p sid sub w = Returns w'" and "Subscription.QuitChan sub \<noteq> r"
  shows "boolChans w' r = boolChans w r"
  using send_visit_cases [OF assms(1)] assms(2)
  by (auto dest: selectnbsend_other [where r' = r])

lemma send_visit_bool_blocked:
  assumes "send_visit p sid sub w = Returns w'" and "would_block (boolChans w) r"
  shows "boolChans w' r = boolChans w r"
  using send_visit_cases [OF assms(1)] assms(2)
  by (auto dest: selectnbsend_blocked_same [where r' = r])

lemma send_visit_payload_blocked:
  assumes "send_visit p sid sub w = Returns w'" and "would_block (payloadChans w) r"
  shows "payloadChans w' r = payloadChans w r"
  using send_visit_cases [OF assms(1)] assms(2)
  by (auto dest: selectnbsend_blocked_same [where r' = r])

lemma send_visit_signal:
  assumes "send_visit p sid sub w = Returns w'"
      and "would_block (payloadChans w) (PayloadChan sub)"
  shows "\<exists>ok bcs. selectnbsend (boolChans w) (Subscription.QuitChan sub) True = Some (ok, bcs) \<and>
                  boolChans w' = bcs \<and>
                  filter (quit_to sid) (emitted w w') = [QuitSend sid ok]"
  using send_visit_cases [OF assms(1)] assms(2)
  by (auto simp add: emitted_def dest: selectnbsend_sent)

lemma selectnbsend_same:
  assumes "h' r = h r" and "selectnbsend h' r v = Some (ok, b')"
  shows "\<exists>b. selectnbsend h r v = Some (ok, b) \<and> b r = b' r"
  using assms by (auto simp add: selectnbsend_def split: option.splits if_splits)

lemma send_range_bool_blocked:
  "send_range p xs w = Returns w' \<Longrightarrow> would_block (boolChans w) r \<Longrightarrow>
     boolChans w' r = boolChans w r"
proof (induction xs arbitrary: w)
  case Nil
  then show ?case by simp
next
  case (Cons x xs)
  obtain sid sub where x: "x = (sid, sub)" by (cases x)
  from Cons.prems x obtain w1 where 1: "send_visit p sid sub w = Returns w1"
    and 2: "send_range p xs w1 = Returns w'"
    by (auto split: outcome.splits)
  note s = send_visit_bool_blocked [OF 1 Cons.prems(2)]
  with Cons.prems(2) have "would_block (boolChans w1) r" by (simp add: would_block_def)
  from Cons.IH [OF 2 this] s show ?case by simp
qed

lemma send_range_payload_blocked:
  "send_range p xs w = Returns w' \<Longrightarrow> would_block (payloadChans w) r \<Longrightarrow>
     payloadChans w' r = payloadChans w r"
proof (induction xs arbitrary: w)
  case Nil
  then show ?case by simp
next
  case (Cons x xs)
  obtain sid sub where x: "x = (sid, sub)" by (cases x)
  from Cons.prems x obtain w1 where 1: "send_visit p sid sub w = Returns w1"
    and 2: "send_range p xs w1 = Returns w'"
    by (auto split: outcome.splits)
  note s = send_visit_payload_blocked [OF 1 Cons.prems(2)]
  with Cons.prems(2) have "would_block (payloadChans w1) r" by (simp add: would_block_def)
  from Cons.IH [OF 2 this] s show ?case by simp
qed

lemma send_range_bool_other:
  "send_range p xs w = Returns w' \<Longrightarrow> \<forall>(k, s) \<in> set xs. Subscription.QuitChan s \<noteq> r \<Longrightarrow>
     boolChans w' r = boolChans w r"
proof (induction xs arbitrary: w)
  case Nil
  then show ?case by simp
next
  case (Cons x xs)
  obtain sid sub where x: "x = (sid, sub)" by (cases x)
  from Cons.prems x obtain w1 where 1: "send_visit p sid sub w = Returns w1"
    and 2: "send_range p xs w1 = Returns w'"
    by (auto split: outcome.splits)
  from Cons.prems(2) x have q: "Subscription.QuitChan sub \<noteq> r"
    and rest: "\<forall>(k, s) \<in> set xs. Subscription.QuitChan s \<noteq> r" by auto
  from send_visit_bool_other [OF 1 q] Cons.IH [OF 2 rest] show ?case by simp
qed

lemma send_range_signal:
  assumes "send_range p xs w = Returns w'" and "distinct (map fst xs)"
      and "(sid, sub) \<in> set xs" and "would_block (payloadChans w) (PayloadChan sub)"
      and "\<forall>(k, s) \<in> set xs. k \<noteq> sid \<longrightarrow> Subscription.QuitChan s \<noteq> Subscription.QuitChan sub"
  shows "\<exists>ok bcs. selectnbsend (boolChans w) (Subscription.QuitChan sub) True = Some (ok, bcs) \<and>
                  boolChans w' (Subscription.QuitChan sub) = bcs (Subscription.QuitChan sub) \<and>
                  filter (quit_to sid) (emitted w w') = [QuitSend sid ok]"
  using assms
proof (induction xs arbitrary: w)
  case Nil
  then show ?case by simp
next
  case (Cons x xs)
  let ?q = "Subscription.QuitChan sub"
  obtain k s where x: "x = (k, s)" by (cases x)
  from Cons.prems x obtain w1 where 1: "send_visit p k s w = Returns w1"
    and 2: "send_range p xs w1 = Returns w'"
    by (auto split: outcome.splits)
  from Cons.prems x have d: "distinct (map fst xs)" and fresh: "k \<notin> fst ` set xs" by auto
  from Cons.prems(5) have rest: "\<forall>(k, s) \<in> set xs. k \<noteq> sid \<longrightarrow> Subscription.QuitChan s \<noteq> ?q"
    by auto
  have e: "emitted w w' = emitted w w1 @ emitted w1 w'"
    by (rule emitted_trans(1) [OF send_visit_extends [OF 1] send_range_extends [OF 2]])
  show ?case
  proof (cases "k = sid")
    case True
    with Cons.prems(3) x fresh have s: "s = sub" by force
    with Cons.prems(4) have wb: "would_block (payloadChans w) (PayloadChan s)" by simp
    from send_visit_signal [OF 1 wb] s True obtain ok bcs where
      sel: "selectnbsend (boolChans w) ?q True = Some (ok, bcs)"
      and b1: "boolChans w1 = bcs"
      and e1: "filter (quit_to sid) (emitted w w1) = [QuitSend sid ok]"
      by auto
    from rest fresh True have "\<forall>(k, s) \<in> set xs. Subscription.QuitChan s \<noteq> ?q" by force
    from send_range_bool_other [OF 2 this] b1 have b: "boolChans w' ?q = bcs ?q" by simp
    from fresh True have "sid \<notin> fst ` set xs" by simp
    from send_range_foreign [OF 2 this] e1 have "filter (quit_to sid) (emitted w w') = [QuitSend sid ok]"
      by (simp add: e)
    with sel b show ?thesis by blast
  next
    case False
    with Cons.prems(3) x have in_rest: "(sid, sub) \<in> set xs" by auto
    from Cons.prems(5) x False have "Subscription.QuitChan s \<noteq> ?q" by auto
    from send_visit_bool_other [OF 1 this] have same: "boolChans w1 ?q = boolChans w ?q" .
    have wb1: "would_block (payloadChans w1) (PayloadChan sub)"
      by (rule send_visit_would_block [OF 1 Cons.prems(4)])
    from Cons.IH [OF 2 d in_rest wb1 rest] obtain ok bcs1 where
      sel1: "selectnbsend (boolChans w1) ?q True = Some (ok, bcs1)"
      and b1: "boolChans w' ?q = bcs1 ?q"
      and e1: "filter (quit_to sid) (emitted w1 w') = [QuitSend sid ok]"
      by blast
    from selectnbsend_same [of "boolChans w1" ?q "boolChans w" True ok bcs1, OF same sel1] obtain bcs where
      sel: "selectnbsend (boolChans w) ?q True = Some (ok, bcs)" and eq: "bcs ?q = bcs1 ?q"
      by blast
    from send_visit_events(3) [OF 1, of sid] False e1
    have "filter (quit_to sid) (emitted w w') = [QuitSend sid ok]" by (simp add: e)
    moreover from b1 eq have "boolChans w' ?q = bcs ?q" by simp
    ultimately show ?thesis using sel by blast
  qed
qed

lemma send_range_signal_refused:
  assumes "send_range p xs w = Returns w'" and "distinct (map fst xs)"
      and "(sid, sub) \<in> set xs" and "would_block (payloadChans w) (PayloadChan sub)"
      and "would_block (boolChans w) (Subscription.QuitChan sub)"
  shows "filter (quit_to sid) (emitted w w') = [QuitSend sid False]"
  using assms
proof (induction xs arbitrary: w)
  case Nil
  then show ?case by simp
next
  case (Cons x xs)
  let ?q = "Subscription.QuitChan sub"
  obtain k s where x: "x = (k, s)" by (cases x)
  from Cons.prems x obtain w1 where 1: "send_visit p k s w = Returns w1"
    and 2: "send_range p xs w1 = Returns w'"
    by (auto split: outcome.splits)
  from Cons.prems x have d: "distinct (map fst xs)" and fresh: "k \<notin> fst ` set xs" by auto
  have e: "emitted w w' = emitted w w1 @ emitted w1 w'"
    by (rule emitted_trans(1) [OF send_visit_extends [OF 1] send_range_extends [OF 2]])
  show ?case
  proof (cases "k = sid")
    case True
    with Cons.prems(3) x fresh have s: "s = sub" by force
    with Cons.prems(4) have wb: "would_block (payloadChans w) (PayloadChan s)" by simp
    from send_visit_signal [OF 1 wb] s True obtain ok bcs where
      sel: "selectnbsend (boolChans w) ?q True = Some (ok, bcs)"
      and e1: "filter (quit_to sid) (emitted w w1) = [QuitSend sid ok]"
      by auto
    from Cons.prems(5) have "selectnbsend (boolChans w) ?q True = Some (False, boolChans w)"
      by (simp add: selectnbsend_default)
    with sel have "ok = False" by simp
    from fresh True have "sid \<notin> fst ` set xs" by simp
    from send_range_foreign [OF 2 this] e1 \<open>ok = False\<close> show ?thesis by (simp add: e)
  next
    case False
    with Cons.prems(3) x have in_rest: "(sid, sub) \<in> set xs" by auto
    have wb1: "would_block (payloadChans w1) (PayloadChan sub)"
      by (rule send_visit_would_block [OF 1 Cons.prems(4)])
    have "would_block (boolChans w1) ?q"
      using send_visit_bool_blocked [OF 1 Cons.prems(5)] Cons.prems(5)
      by (simp add: would_block_def)
    from Cons.IH [OF 2 d in_rest wb1 this] send_visit_events(3) [OF 1, of sid] False
    show ?thesis by (simp add: e)
  qed
qed

lemma send_chans:
  assumes "send p w = Returns w'"
      and "send_range p (Subscriptions w) (w\<lparr>Mutex := True\<rparr>) = Returns v"
  shows "boolChans w' = boolChans v" and "payloadChans w' = payloadChans v"
proof -
  from assms(1) obtain w2 where r: "send_range p (Subscriptions w) (w\<lparr>Mutex := True\<rparr>) = Returns w2"
    and w': "w' = (if Subscriptions w2 = [] \<and> subscribers w2 = 1
               then w2\<lparr>Mutex := False, subscribers := 0,
                      trace := trace w2 @ [Log LvlInfo ''No more subscriptions; halting statediff processing'' []]\<rparr>
               else w2\<lparr>Mutex := False\<rparr>)"
    by (rule send_unfold)
  from r assms(2) have "v = w2" by simp
  with w' show "boolChans w' = boolChans v" and "payloadChans w' = payloadChans v" by simp_all
qed

text \<open>
  Claim C3. In a broadcast that runs (the mutex is free and no registered channel is
  closed), take a registered subscriber whose payload channel cannot accept a non-blocking
  write. It sees exactly one payload event, the failed write, and its payload channel is
  left as it was. Exactly one non-blocking write of the termination signal is made on its
  quit channel: when that channel cannot accept it either, the \<^verbatim>\<open>default\<close> case runs and
  the channel is unchanged; when no other subscription shares the channel, the outcome and
  the channel afterwards are those of the \<^verbatim>\<open>select\<close> on the channel as it was at the
  start of the broadcast, so a channel with room holds the signal afterwards. Whatever the
  outcome, the id is no longer in the map when \<^verbatim>\<open>send\<close> returns, and a later \<^verbatim>\<open>send\<close> makes
  no write for it.
\<close>

theorem send_evicts_blocked_subscriber:
  assumes "\<not> Mutex w" and "sinks_open w" and "distinct (map fst (Subscriptions w))"
      and "(sid, sub) \<in> set (Subscriptions w)"
      and "would_block (payloadChans w) (PayloadChan sub)"
  shows "\<exists>w'. send p w = Returns w' \<and>
              trace w' = trace w @ emitted w w' \<and>
              filter (payload_to sid) (emitted w w') = [PayloadSend sid p False] \<and>
              payloadChans w' (PayloadChan sub) = payloadChans w (PayloadChan sub) \<and>
              length (filter (quit_to sid) (emitted w w')) = 1 \<and>
              (would_block (boolChans w) (Subscription.QuitChan sub) \<longrightarrow>
                 filter (quit_to sid) (emitted w w') = [QuitSend sid False] \<and>
                 boolChans w' (Subscription.QuitChan sub) = boolChans w (Subscription.QuitChan sub)) \<and>
              (sole_quit w sid (Subscription.QuitChan sub) \<longrightarrow>
                 (\<exists>ok bcs. selectnbsend (boolChans w) (Subscription.QuitChan sub) True = Some (ok, bcs) \<and>
                    filter (quit_to sid) (emitted w w') = [QuitSend sid ok] \<and>
                    boolChans w' (Subscription.QuitChan sub) = bcs (Subscription.QuitChan sub))) \<and>
              map_of (Subscriptions w') sid = None \<and>
              (\<forall>p2 w2. send p2 w' = Returns w2 \<longrightarrow>
                 trace w2 = trace w' @ emitted w' w2 \<and>
                 filter (payload_to sid) (emitted w' w2) = [])"
proof -
  let ?q = "Subscription.QuitChan sub"
  let ?w1 = "w\<lparr>Mutex := True\<rparr>"
  from send_returns [OF assms(1,2)] obtain w' where s: "send p w = Returns w'" by blast
  note 0 = send_frame(4) [OF s]
  from send_events [OF s, of sid] obtain v where
    r: "send_range p (Subscriptions w) ?w1 = Returns v"
    and subs: "Subscriptions w' = Subscriptions v"
    and pe: "filter (payload_to sid) (emitted w w') = filter (payload_to sid) (emitted ?w1 v)"
    and qe: "filter (quit_to sid) (emitted w w') = filter (quit_to sid) (emitted ?w1 v)"
    by blast
  note ch = send_chans [OF s r]
  have wb: "would_block (payloadChans ?w1) (PayloadChan sub)"
    using assms(5) by simp
  from send_range_evicts [OF r assms(3,4) wb]
  have 1: "filter (payload_to sid) (emitted w w') = [PayloadSend sid p False]"
    and 2: "length (filter (quit_to sid) (emitted w w')) = 1"
    and 3: "sid \<notin> fst ` set (Subscriptions w')"
    by (simp_all add: pe qe subs)
  from send_range_payload_blocked [OF r wb]
  have 5: "payloadChans w' (PayloadChan sub) = payloadChans w (PayloadChan sub)"
    by (simp add: ch)
  have 6: "filter (quit_to sid) (emitted w w') = [QuitSend sid False] \<and>
           boolChans w' ?q = boolChans w ?q"
    if b: "would_block (boolChans w) ?q"
  proof -
    from b have b1: "would_block (boolChans ?w1) ?q" by simp
    from send_range_signal_refused [OF r assms(3,4) wb b1] send_range_bool_blocked [OF r b1]
    show ?thesis by (simp add: qe ch)
  qed
  have 7: "\<exists>ok bcs. selectnbsend (boolChans w) ?q True = Some (ok, bcs) \<and>
                    filter (quit_to sid) (emitted w w') = [QuitSend sid ok] \<and>
                    boolChans w' ?q = bcs ?q"
    if u: "sole_quit w sid ?q"
  proof -
    from u have "\<forall>(k, s) \<in> set (Subscriptions w). k \<noteq> sid \<longrightarrow> Subscription.QuitChan s \<noteq> ?q"
      by (simp add: sole_quit_def)
    from send_range_signal [OF r assms(3,4) wb this] show ?thesis
      by (auto simp add: qe ch)
  qed
  have 4: "trace w2 = trace w' @ emitted w' w2 \<and> filter (payload_to sid) (emitted w' w2) = []"
    if n: "send p2 w' = Returns w2" for p2 w2
  proof -
    from send_events [OF n, of sid] obtain v2 where
      r2: "send_range p2 (Subscriptions w') (w'\<lparr>Mutex := True\<rparr>) = Returns v2"
      and pe2: "filter (payload_to sid) (emitted w' w2) =
                filter (payload_to sid) (emitted (w'\<lparr>Mutex := True\<rparr>) v2)"
      by blast
    from send_range_foreign [OF r2 3] pe2 send_frame(4) [OF n] show ?thesis by simp
  qed
  from 3 have "map_of (Subscriptions w') sid = None" by (simp add: map_of_eq_None_iff)
  with s 0 1 2 4 5 6 7 show ?thesis by blast
qed

lemma deaf_simps:
  "\<not> Mutex deaf"
  "Subscriptions deaf = [(''a'', \<lparr>PayloadChan = 1, Subscription.QuitChan = 2\<rparr>),
                          (''b'', \<lparr>PayloadChan = 3, Subscription.QuitChan = 4\<rparr>)]"
  "payloadChans deaf = [1 \<mapsto> makechan 0, 3 \<mapsto> makechan 1]"
  "boolChans deaf = [0 \<mapsto> makechan 0, 2 \<mapsto> makechan 0, 4 \<mapsto> makechan 1]"
  by (simp_all add: deaf_def stalled_simps)

theorem send_evicts_blocked_subscriber_witness:
  "\<not> Mutex stalled \<and> sinks_open stalled \<and> distinct (map fst (Subscriptions stalled)) \<and>
   (''a'', \<lparr>PayloadChan = 1, Subscription.QuitChan = 2\<rparr>) \<in> set (Subscriptions stalled) \<and>
   would_block (payloadChans stalled) 1 \<and> sole_quit stalled ''a'' 2 \<and>
   (\<exists>w'. send payload1 stalled = Returns w' \<and>
         trace w' = trace stalled @ emitted stalled w' \<and>
         filter (payload_to ''a'') (emitted stalled w') = [PayloadSend ''a'' payload1 False] \<and>
         payloadChans w' 1 = payloadChans stalled 1 \<and>
         filter (quit_to ''a'') (emitted stalled w') = [QuitSend ''a'' True] \<and>
         boolChans w' 2 = Some \<lparr>closed = False, recvq = 0, dataqsiz = 1, buf = [True]\<rparr> \<and>
         map_of (Subscriptions w') ''a'' = None \<and>
         (\<forall>p2 w2. send p2 w' = Returns w2 \<longrightarrow>
            trace w2 = trace w' @ emitted w' w2 \<and>
            filter (payload_to ''a'') (emitted w' w2) = [])) \<and>
   \<not> Mutex deaf \<and> sinks_open deaf \<and> distinct (map fst (Subscriptions deaf)) \<and>
   (''a'', \<lparr>PayloadChan = 1, Subscription.QuitChan = 2\<rparr>) \<in> set (Subscriptions deaf) \<and>
   would_block (payloadChans deaf) 1 \<and> would_block (boolChans deaf) 2 \<and>
   (\<exists>w'. send payload1 deaf = Returns w' \<and>
         filter (quit_to ''a'') (emitted deaf w') = [QuitSend ''a'' False] \<and>
         boolChans w' 2 = boolChans deaf 2 \<and>
         map_of (Subscriptions w') ''a'' = None)"
proof -
  let ?sub = "\<lparr>PayloadChan = 1, Subscription.QuitChan = 2\<rparr>"
  have 1: "\<not> Mutex stalled" by (simp add: stalled_simps)
  have 2: "sinks_open stalled"
    by (simp add: sinks_open_def stalled_simps is_closed_def makechan_def)
  have 3: "distinct (map fst (Subscriptions stalled))" by (simp add: stalled_simps)
  have 4: "(''a'', ?sub) \<in> set (Subscriptions stalled)" by (simp add: stalled_simps)
  have 5: "would_block (payloadChans stalled) (PayloadChan ?sub)"
    by (simp add: stalled_simps would_block_def makechan_def)
  have 6: "sole_quit stalled ''a'' (Subscription.QuitChan ?sub)"
    by (simp add: sole_quit_def stalled_simps)
  have sel: "selectnbsend (boolChans stalled) 2 True =
               Some (True, (boolChans stalled)(2 \<mapsto> \<lparr>closed = False, recvq = 0, dataqsiz = 1, buf = [True]\<rparr>))"
    by (simp add: selectnbsend_def stalled_simps makechan_def)
  from send_evicts_blocked_subscriber [OF 1 2 3 4 5, of payload1] 6 sel
  have a: "\<exists>w'. send payload1 stalled = Returns w' \<and>
         trace w' = trace stalled @ emitted stalled w' \<and>
         filter (payload_to ''a'') (emitted stalled w') = [PayloadSend ''a'' payload1 False] \<and>
         payloadChans w' 1 = payloadChans stalled 1 \<and>
         filter (quit_to ''a'') (emitted stalled w') = [QuitSend ''a'' True] \<and>
         boolChans w' 2 = Some \<lparr>closed = False, recvq = 0, dataqsiz = 1, buf = [True]\<rparr> \<and>
         map_of (Subscriptions w') ''a'' = None \<and>
         (\<forall>p2 w2. send p2 w' = Returns w2 \<longrightarrow>
            trace w2 = trace w' @ emitted w' w2 \<and>
            filter (payload_to ''a'') (emitted w' w2) = [])"
    by auto
  have d1: "\<not> Mutex deaf" by (simp add: deaf_simps)
  have d2: "sinks_open deaf"
    by (simp add: sinks_open_def deaf_simps is_closed_def makechan_def)
  have d3: "distinct (map fst (Subscriptions deaf))" by (simp add: deaf_simps)
  have d4: "(''a'', ?sub) \<in> set (Subscriptions deaf)" by (simp add: deaf_simps)
  have d5: "would_block (payloadChans deaf) (PayloadChan ?sub)"
    by (simp add: deaf_simps would_block_def makechan_def)
  have d6: "would_block (boolChans deaf) (Subscription.QuitChan ?sub)"
    by (simp add: deaf_simps would_block_def makechan_def)
  from send_evicts_blocked_subscriber [OF d1 d2 d3 d4 d5, of payload1] d6
  have b: "\<exists>w'. send payload1 deaf = Returns w' \<and>
         filter (quit_to ''a'') (emitted deaf w') = [QuitSend ''a'' False] \<and>
         boolChans w' 2 = boolChans deaf 2 \<and>
         map_of (Subscriptions w') ''a'' = None"
    by auto
  from 1 2 3 4 5 6 d1 d2 d3 d4 d5 d6 a b show ?thesis by simp
qed

subsection \<open>The counter and the map\<close>

lemma gate_exact_inv: "gate_exact w \<Longrightarrow> gate_inv w"
  by (simp add: gate_exact_def gate_inv_def)

lemma send_gate:
  assumes "send p w = Returns w'" and "gate_inv w"
  shows "gate_exact w'"
proof -
  from assms(1) obtain w2 where r: "send_range p (Subscriptions w) (w\<lparr>Mutex := True\<rparr>) = Returns w2"
    and w': "w' = (if Subscriptions w2 = [] \<and> subscribers w2 = 1
               then w2\<lparr>Mutex := False, subscribers := 0,
                      trace := trace w2 @ [Log LvlInfo ''No more subscriptions; halting statediff processing'' []]\<rparr>
               else w2\<lparr>Mutex := False\<rparr>)"
    by (rule send_unfold)
  from send_range_service [OF r] have c: "subscribers w2 = subscribers w" by simp
  from send_range_keys [OF r] have k: "Subscriptions w2 \<noteq> [] \<Longrightarrow> Subscriptions w \<noteq> []"
    by auto
  show ?thesis
  proof (cases "Subscriptions w2 = []")
    case True
    with w' c assms(2) show ?thesis by (auto simp add: gate_exact_def gate_inv_def)
  next
    case False
    with k assms(2) have "subscribers w = 1" by (simp add: gate_inv_def)
    with False w' c show ?thesis by (simp add: gate_exact_def)
  qed
qed

text \<open>
  When nothing runs between the two steps of \<^verbatim>\<open>Subscribe\<close>, the counter follows the map.
  In a world where the counter is 0 or 1 and is 1 whenever the map has an entry, with the
  mutex free: \<^verbatim>\<open>Subscribe\<close> returns with an entry in the map and the counter at 1;
  \<^verbatim>\<open>Unsubscribe\<close> of a registered id and \<^verbatim>\<open>send\<close> (no registered channel closed) return
  with the counter at 1 exactly when the map has an entry.
\<close>

lemma uninterrupted_gate_mirrors_registry:
  assumes "gate_inv w" and "\<not> Mutex w"
  shows "(\<exists>w'. Subscribe sid pc qc w = Returns w' \<and> Subscriptions w' \<noteq> [] \<and> subscribers w' = 1) \<and>
         (map_of (Subscriptions w) uid \<noteq> None \<longrightarrow>
            (\<exists>w'. Unsubscribe uid w = Returns (None, w') \<and> gate_exact w')) \<and>
         (sinks_open w \<longrightarrow> (\<exists>w'. send p w = Returns w' \<and> gate_exact w'))"
proof (intro conjI impI)
  from Subscribe_returns [OF assms(2), of sid pc qc] assms(1)
  show "\<exists>w'. Subscribe sid pc qc w = Returns w' \<and> Subscriptions w' \<noteq> [] \<and> subscribers w' = 1"
    by (auto simp add: gate_inv_def)
next
  assume "map_of (Subscriptions w) uid \<noteq> None"
  then obtain sub where s: "map_of (Subscriptions w) uid = Some sub" by auto
  then have ne: "Subscriptions w \<noteq> []" by auto
  with assms(1) have one: "subscribers w = 1" by (simp add: gate_inv_def)
  from Unsubscribe_known [OF assms(2) s] one
  show "\<exists>w'. Unsubscribe uid w = Returns (None, w') \<and> gate_exact w'"
    by (auto simp add: gate_exact_def)
next
  assume "sinks_open w"
  from send_returns [OF assms(2) this] obtain w' where s: "send p w = Returns w'" by blast
  from send_gate [OF s assms(1)] s show "\<exists>w'. send p w = Returns w' \<and> gate_exact w'" by blast
qed

text \<open>
  Claim C4, at the inputs where the code departs from it. The compare-and-swap of
  \<^verbatim>\<open>Subscribe\<close> runs before the lock is taken. On the fresh service (empty map), a \<^verbatim>\<open>send\<close>
  that runs between the swap and the insert finds the map empty and resets the counter;
  on the service with the one subscriber \<open>a\<close>, an \<^verbatim>\<open>Unsubscribe\<close> of \<open>a\<close> that runs
  between the two does the same. Each time \<^verbatim>\<open>Subscribe\<close> then returns with its entry in the
  map and the counter at 0.
\<close>

theorem Subscribe_races_with_send_and_Unsubscribe:
  "(\<exists>w1 w2. send payload1 (Subscribe_cas fresh) = Returns w1 \<and>
            Subscribe_insert ''a'' 1 2 w1 = Returns w2 \<and>
            Subscriptions w2 = [(''a'', \<lparr>PayloadChan = 1, Subscription.QuitChan = 2\<rparr>)] \<and>
            subscribers w2 = 0) \<and>
   (\<exists>w1 w2. Unsubscribe ''a'' (Subscribe_cas one_sub) = Returns (None, w1) \<and>
            Subscribe_insert ''b'' 3 4 w1 = Returns w2 \<and>
            Subscriptions w2 = [(''b'', \<lparr>PayloadChan = 3, Subscription.QuitChan = 4\<rparr>)] \<and>
            subscribers w2 = 0)"
  by (simp add: Subscribe_cas_def Subscribe_insert_def Unsubscribe_def send_def one_sub_def fresh_def
        NewStateDiffService_def emit_def Lock_def Unlock_def CompareAndSwapInt32_def Let_def)

subsection \<open>close\<close>

lemma close_visit_cases:
  assumes "close_visit sid sub w = Returns w'"
  obtains ok bcs where "selectnbsend (boolChans w) (Subscription.QuitChan sub) True = Some (ok, bcs)"
    and "w' = w\<lparr>boolChans := bcs, Subscriptions := AList.delete sid (Subscriptions w),
                  trace := trace w @ [QuitSend sid ok,
                    Log LvlInfo (if ok then ''closing subscription %s''
                                 else ''unable to close subscription %s; channel has no receiver'') [IdArg sid]]\<rparr>"
proof (cases "selectnbsend (boolChans w) (Subscription.QuitChan sub) True")
  case None
  with assms show ?thesis by (simp add: close_visit_def)
next
  case (Some b)
  obtain ok bcs where b: "b = (ok, bcs)" by (cases b)
  with assms Some that show ?thesis
    by (auto simp add: close_visit_def emit_def Let_def)
qed

lemma close_visit_returns:
  assumes "\<not> is_closed (boolChans w) (Subscription.QuitChan sub)"
  shows "\<exists>w'. close_visit sid sub w = Returns w'"
proof -
  from assms obtain ok bcs where "selectnbsend (boolChans w) (Subscription.QuitChan sub) True = Some (ok, bcs)"
    by (cases "selectnbsend (boolChans w) (Subscription.QuitChan sub) True") (auto simp add: selectnbsend_panics)
  then show ?thesis by (simp add: close_visit_def Let_def)
qed

lemma close_visit_facts:
  assumes "close_visit sid sub w = Returns w'"
  shows "Mutex w' = Mutex w" and "subscribers w' = subscribers w" and "lastBlock w' = lastBlock w"
    and "payloadChans w' = payloadChans w" and "QuitChan w' = QuitChan w"
    and "Subscriptions w' = AList.delete sid (Subscriptions w)"
    and "is_closed (boolChans w') r = is_closed (boolChans w) r"
    and "trace w' = trace w @ emitted w w'"
    and "length (filter (quit_to sid) (emitted w w')) = 1"
    and "k \<noteq> sid \<Longrightarrow> filter (quit_to k) (emitted w w') = []"
    and "filter payload_send (emitted w w') = []"
    and "filter builder_call (emitted w w') = []"
  using assms
  by (auto elim!: close_visit_cases simp add: emitted_def selectnbsend_is_closed)

lemma close_range_frame:
  "close_range xs w = Returns w' \<Longrightarrow>
     Mutex w' = Mutex w \<and> subscribers w' = subscribers w \<and> lastBlock w' = lastBlock w \<and>
     payloadChans w' = payloadChans w \<and> QuitChan w' = QuitChan w \<and>
     fst ` set (Subscriptions w') = fst ` set (Subscriptions w) - fst ` set xs \<and>
     trace w' = trace w @ emitted w w' \<and>
     filter payload_send (emitted w w') = [] \<and> filter builder_call (emitted w w') = []"
proof (induction xs arbitrary: w)
  case Nil
  then show ?case by (simp add: emitted_def)
next
  case (Cons x xs)
  obtain sid sub where x: "x = (sid, sub)" by (cases x)
  from Cons.prems x obtain w1 where 1: "close_visit sid sub w = Returns w1"
    and 2: "close_range xs w1 = Returns w'"
    by (auto split: outcome.splits)
  note v = close_visit_facts [OF 1]
  note r = Cons.IH [OF 2]
  from r have t1: "trace w' = trace w1 @ emitted w1 w'" by simp
  have e: "emitted w w' = emitted w w1 @ emitted w1 w'"
    by (rule emitted_trans(1) [OF v(8) t1])
  have t: "trace w' = trace w @ emitted w w'"
    by (rule emitted_trans(2) [OF v(8) t1])
  have k: "fst ` set (Subscriptions w') = fst ` set (Subscriptions w) - fst ` set (x # xs)"
    using r v(6) x by (auto simp add: keys_delete)
  show ?case
    using v(1-5,11,12) r k t by (simp add: e)
qed

lemma close_range_returns:
  assumes "\<forall>(sid, sub) \<in> set xs. \<not> is_closed (boolChans w) (Subscription.QuitChan sub)"
  shows "\<exists>w'. close_range xs w = Returns w'"
  using assms
proof (induction xs arbitrary: w)
  case Nil
  then show ?case by simp
next
  case (Cons x xs)
  obtain sid sub where x: "x = (sid, sub)" by (cases x)
  from Cons.prems x obtain w1 where 1: "close_visit sid sub w = Returns w1"
    using close_visit_returns [of w sub sid] by auto
  have "\<forall>(sid, sub) \<in> set xs. \<not> is_closed (boolChans w1) (Subscription.QuitChan sub)"
    using Cons.prems close_visit_facts(7) [OF 1] by auto
  from Cons.IH [OF this] obtain w' where "close_range xs w1 = Returns w'" by blast
  with 1 x show ?case by simp
qed

lemma close_range_signals:
  assumes "close_range xs w = Returns w'" and "distinct (map fst xs)"
  shows "length (filter (quit_to k) (emitted w w')) = (if k \<in> fst ` set xs then 1 else 0)"
  using assms
proof (induction xs arbitrary: w)
  case Nil
  then show ?case by (simp add: emitted_def)
next
  case (Cons x xs)
  obtain sid sub where x: "x = (sid, sub)" by (cases x)
  from Cons.prems x obtain w1 where 1: "close_visit sid sub w = Returns w1"
    and 2: "close_range xs w1 = Returns w'"
    by (auto split: outcome.splits)
  from Cons.prems x have d: "distinct (map fst xs)" and fresh: "sid \<notin> fst ` set xs" by auto
  note v = close_visit_facts [OF 1]
  from close_range_frame [OF 2] have t1: "trace w' = trace w1 @ emitted w1 w'" by simp
  have e: "emitted w w' = emitted w w1 @ emitted w1 w'"
    by (rule emitted_trans(1) [OF v(8) t1])
  show ?case
  proof (cases "k = sid")
    case True
    with v(9) Cons.IH [OF 2 d] fresh x show ?thesis by (simp add: e)
  next
    case False
    with v(10) [OF False] Cons.IH [OF 2 d] x show ?thesis by (simp add: e)
  qed
qed

text \<open>What \<^verbatim>\<open>close\<close> does when it runs: one termination signal is tried per registered
  subscriber, the map is emptied and the mutex released; the counter is left as it was.\<close>

lemma close_signals_all_and_empties:
  assumes "\<not> Mutex w" and "distinct (map fst (Subscriptions w))"
      and "\<forall>(sid, sub) \<in> set (Subscriptions w). \<not> is_closed (boolChans w) (Subscription.QuitChan sub)"
  shows "\<exists>w'. close w = Returns w' \<and> Subscriptions w' = [] \<and> \<not> Mutex w' \<and>
              subscribers w' = subscribers w \<and>
              (\<forall>k. length (filter (quit_to k) (emitted w w')) =
                     (if k \<in> fst ` set (Subscriptions w) then 1 else 0))"
proof -
  let ?w1 = "w\<lparr>Mutex := True\<rparr>"
  have "\<forall>(sid, sub) \<in> set (Subscriptions w). \<not> is_closed (boolChans ?w1) (Subscription.QuitChan sub)"
    using assms(3) by simp
  from close_range_returns [OF this] obtain w2
    where r: "close_range (Subscriptions w) ?w1 = Returns w2" by blast
  from assms(1) r have c: "close w = Returns (w2\<lparr>Mutex := False\<rparr>)"
    by (simp add: close_def Lock_def Unlock_def)
  note f = close_range_frame [OF r]
  from f have "fst ` set (Subscriptions w2) = {}" by simp
  then have empty: "Subscriptions w2 = []" by simp
  have "emitted w (w2\<lparr>Mutex := False\<rparr>) = emitted ?w1 w2" by (simp add: emitted_def)
  with close_range_signals [OF r assms(2)] c empty f show ?thesis by simp
qed

text \<open>
  Claim C5, at the input where the code departs from it: \<^verbatim>\<open>close\<close> on the service with
  the one subscriber \<open>a\<close> empties the map and returns with the counter still at 1.
\<close>

theorem close_leaves_counter_set:
  "\<exists>w'. close one_sub = Returns w' \<and> Subscriptions w' = [] \<and> subscribers w' = 1"
  by (simp add: close_def Lock_def Unlock_def close_visit_def selectnbsend_def makechan_def
        emit_def one_sub_simps Let_def)

subsection \<open>Stop\<close>

text \<open>
  The second \<^verbatim>\<open>Stop\<close> on the fresh service: the first call returns with the shutdown
  channel closed, the second call closes the closed channel and panics.
\<close>

theorem Stop_twice_panics:
  "Stop fresh = Returns (None, stopped_once) \<and> Stop stopped_once = Panics"
  by (simp add: Stop_def closechan_def emit_def stopped_once_def fresh_def
        NewStateDiffService_def makechan_def)

text \<open>
  Claim C6, amended. \<^verbatim>\<open>Stop\<close> is not idempotent. Called while the shutdown channel is open,
  it closes the channel and returns nil; a second call then panics, since \<^verbatim>\<open>close\<close> of a
  closed channel panics and nothing guards the \<^verbatim>\<open>close(sds.QuitChan)\<close>.
\<close>

theorem Stop_closes_once:
  assumes "boolChans w (QuitChan w) = Some c" and "\<not> closed c"
  shows "\<exists>w'. Stop w = Returns (None, w') \<and> is_closed (boolChans w') (QuitChan w') \<and>
              Stop w' = Panics"
  using assms by (simp add: Stop_def closechan_def emit_def is_closed_def)

theorem Stop_closes_once_witness:
  "boolChans fresh (QuitChan fresh) = Some (makechan 0) \<and> \<not> closed (makechan 0 :: bool chan) \<and>
   (\<exists>w'. Stop fresh = Returns (None, w') \<and> is_closed (boolChans w') (QuitChan w') \<and>
         Stop w' = Panics)"
proof -
  have 1: "boolChans fresh (QuitChan fresh) = Some (makechan 0)" by (simp add: fresh_simps)
  have 2: "\<not> closed (makechan 0 :: bool chan)" by (simp add: makechan_def)
  show ?thesis using 1 2 Stop_closes_once [OF 1 2] by blast
qed

subsection \<open>processStateDiff\<close>

text \<open>
  Claim C2. When the builder's diff encodes to the same bytes as the empty diff of the
  current block, \<^verbatim>\<open>processStateDiff\<close> returns without calling \<^verbatim>\<open>send\<close>: only the trace
  changes (no channel, no map entry, not the mutex), and the trace gains no write on any
  payload channel.
\<close>

theorem empty_diff_not_sent:
  assumes "Builder w (Root parent) (Root cur) (Number cur) (Hash cur) = Inr sd"
      and "EncodeStateDiff enc sd = Inr bs"
      and "getEmptyStateDiffRlpForBlock enc cur = Inr bs"
  shows "\<exists>err w'. processStateDiff enc cur parent w = Returns (err, w') \<and>
                  w' = w\<lparr>trace := trace w @ emitted w w'\<rparr> \<and>
                  filter payload_send (emitted w w') = []"
proof (cases "StreamBlock w")
  case False
  with assms show ?thesis
    by (simp add: processStateDiff_def isEmptyPayload_def emit_def emitted_def Let_def)
next
  case True
  show ?thesis
  proof (cases "EncodeBlock enc cur")
    case (Inl e)
    with True assms show ?thesis
      by (simp add: processStateDiff_def isEmptyPayload_def emit_def emitted_def Let_def)
  next
    case (Inr bb)
    show ?thesis
    proof (cases "EncodeReceipts enc (GetReceiptsByHash (BlockChain w) (Hash cur))")
      case (Inl e)
      with True \<open>EncodeBlock enc cur = Inr bb\<close> assms show ?thesis
        by (simp add: processStateDiff_def isEmptyPayload_def emit_def emitted_def Let_def)
    next
      case (Inr rb)
      with True \<open>EncodeBlock enc cur = Inr bb\<close> assms show ?thesis
        by (simp add: processStateDiff_def isEmptyPayload_def emit_def emitted_def Let_def)
    qed
  qed
qed

theorem empty_diff_not_sent_witness:
  "Builder one_sub (Root block0) (Root block1) (Number block1) (Hash block1) =
     Inr \<lparr>BlockNumber = 1, BlockHash = [1], AccountDiffs = []\<rparr> \<and>
   EncodeStateDiff hashCount \<lparr>BlockNumber = 1, BlockHash = [1], AccountDiffs = []\<rparr> = Inr [1, 0] \<and>
   getEmptyStateDiffRlpForBlock hashCount block1 = Inr [1, 0] \<and>
   (\<exists>err w'. processStateDiff hashCount block1 block0 one_sub = Returns (err, w') \<and>
             w' = one_sub\<lparr>trace := trace one_sub @ emitted one_sub w'\<rparr> \<and>
             filter payload_send (emitted one_sub w') = [])"
proof -
  have 1: "Builder one_sub (Root block0) (Root block1) (Number block1) (Hash block1) =
             Inr \<lparr>BlockNumber = 1, BlockHash = [1], AccountDiffs = []\<rparr>"
    by (simp add: one_sub_def fresh_def NewStateDiffService_def quietBuilder_def block1_def)
  have 2: "EncodeStateDiff hashCount \<lparr>BlockNumber = 1, BlockHash = [1], AccountDiffs = []\<rparr> = Inr [1, 0]"
    by (simp add: hashCount_def)
  have 3: "getEmptyStateDiffRlpForBlock hashCount block1 = Inr [1, 0]"
    by (simp add: getEmptyStateDiffRlpForBlock_def hashCount_def block1_def)
  show ?thesis using 1 2 3 empty_diff_not_sent [OF 1 2 3] by blast
qed

lemma processStateDiff_staged:
  "processStateDiff enc cur parent w =
     (case assemble enc cur parent w of
        (Inl err, w2) \<Rightarrow> Returns (Some err, w2)
      | (Inr payload, w2) \<Rightarrow> deliver enc payload cur w2)"
  by (simp add: processStateDiff_def assemble_def deliver_def returning_nil_def isEmptyPayload_def
        emit_def Let_def split: sum.splits)

lemma assemble_quiet:
  assumes "assemble enc cur parent w = (r, w2)"
  shows "w2 = w\<lparr>trace := trace w @ emitted w w2\<rparr>"
    and "filter payload_send (emitted w w2) = []"
    and "\<forall>k. filter (payload_to k) (emitted w w2) = [] \<and> filter (quit_to k) (emitted w w2) = []"
    and "trace w2 = trace w @ emitted w w2"
  using assms
  by (auto simp add: assemble_def emit_def emitted_def Let_def split: sum.splits if_splits)

lemma deliver_returns:
  assumes "\<not> Mutex w" and "sinks_open w"
  shows "\<exists>w'. deliver enc payload cur w = Returns (None, w')"
proof -
  let ?w1 = "emit (Log LvlWarn ''Error checking if payload is empty'' []) w"
  have "\<not> Mutex ?w1" and "sinks_open ?w1"
    using assms by (simp_all add: emit_def sinks_open_def)
  from send_returns [OF this] obtain v where 1: "send payload ?w1 = Returns v" by blast
  from send_returns [OF assms] obtain v' where 2: "send payload w = Returns v'" by blast
  from 1 2 show ?thesis
    by (simp add: deliver_def returning_nil_def split: sum.splits)
qed

lemma deliver_frame:
  assumes "deliver enc payload cur w = Returns (err, w')"
  shows "err = None" and "lastBlock w' = lastBlock w" and "gate_inv w \<Longrightarrow> gate_inv w'"
proof -
  let ?w1 = "emit (Log LvlWarn ''Error checking if payload is empty'' []) w"
  from assms have "err = None \<and> (w' = w \<or> send payload ?w1 = Returns w' \<or> send payload w = Returns w')"
    by (auto simp add: deliver_def returning_nil_def split: sum.splits if_splits outcome.splits)
  then have e: "err = None" and c: "w' = w \<or> send payload ?w1 = Returns w' \<or> send payload w = Returns w'"
    by simp_all
  from e show "err = None" .
  from c show "lastBlock w' = lastBlock w"
    using send_frame(1) [of payload ?w1 w'] send_frame(1) [of payload w w']
    by (auto simp add: emit_def)
  assume g: "gate_inv w"
  then have g1: "gate_inv ?w1" by (simp add: gate_inv_def emit_def)
  from c consider "w' = w" | "send payload ?w1 = Returns w'" | "send payload w = Returns w'"
    by blast
  then show "gate_inv w'"
  proof cases
    case 1
    with g show ?thesis by simp
  next
    case 2
    from send_gate [OF 2 g1] show ?thesis by (rule gate_exact_inv)
  next
    case 3
    from send_gate [OF 3 g] show ?thesis by (rule gate_exact_inv)
  qed
qed

lemma processStateDiff_returns:
  assumes "\<not> Mutex w" and "sinks_open w"
  shows "\<exists>r. processStateDiff enc cur parent w = Returns r"
proof -
  obtain r w2 where a: "assemble enc cur parent w = (r, w2)" by fastforce
  from assemble_quiet(1) [OF a] have "w2 = w\<lparr>trace := trace w @ emitted w w2\<rparr>" .
  from trace_only [OF this]
  have "Mutex w2 = Mutex w \<and> Subscriptions w2 = Subscriptions w \<and>
             payloadChans w2 = payloadChans w \<and> boolChans w2 = boolChans w"
    by simp
  with assms have m: "\<not> Mutex w2" and o: "sinks_open w2" by (simp_all add: sinks_open_def)
  show ?thesis
  proof (cases r)
    case (Inl e)
    with a show ?thesis by (simp add: processStateDiff_staged)
  next
    case (Inr payload)
    from deliver_returns [OF m o, of enc payload cur] obtain w'
      where "deliver enc payload cur w2 = Returns (None, w')" by blast
    with a Inr show ?thesis by (simp add: processStateDiff_staged)
  qed
qed

lemma processStateDiff_frame:
  assumes "processStateDiff enc cur parent w = Returns (err, w')"
  shows "lastBlock w' = lastBlock w" and "gate_inv w \<Longrightarrow> gate_inv w'"
proof -
  obtain r w2 where a: "assemble enc cur parent w = (r, w2)" by fastforce
  note t = trace_only [OF assemble_quiet(1) [OF a]]
  show "lastBlock w' = lastBlock w"
  proof (cases r)
    case (Inl e)
    with a assms t(6) show ?thesis by (simp add: processStateDiff_staged)
  next
    case (Inr payload)
    with a assms have "deliver enc payload cur w2 = Returns (err, w')"
      by (simp add: processStateDiff_staged)
    from deliver_frame(2) [OF this] t(6) show ?thesis by simp
  qed
  assume g: "gate_inv w"
  show "gate_inv w'"
  proof (cases r)
    case (Inl e)
    with a assms t(7) g show ?thesis by (simp add: processStateDiff_staged)
  next
    case (Inr payload)
    with a assms have "deliver enc payload cur w2 = Returns (err, w')"
      by (simp add: processStateDiff_staged)
    from deliver_frame(3) [OF this] t(7) g show ?thesis by simp
  qed
qed




subsection \<open>Loop\<close>

lemma onChainEvent_idle:
  assumes "subscribers w = 0"
  shows "onChainEvent enc ev w =
           Returns (w\<lparr>trace := trace w @
              [Log LvlDebug ''Event received from chainEventCh'' [EventArg ev],
               Log LvlDebug ''Currently no subscribers to the statediffing service; processing is halted'' []]\<rparr>)"
  using assms by (simp add: onChainEvent_def emit_def LoadInt32_def)

lemma Loop_select_idle:
  assumes "subscribers w = 0"
  shows "\<exists>w'. Loop_select enc (map ChainEventCase evs) w = Returns (False, w') \<and>
              trace w' = trace w @ emitted w w' \<and>
              filter builder_call (emitted w w') = [] \<and> w' = w\<lparr>trace := trace w'\<rparr>"
  using assms
proof (induction evs arbitrary: w)
  case Nil
  then show ?case by (simp add: emitted_def)
next
  case (Cons ev evs)
  let ?w1 = "w\<lparr>trace := trace w @
              [Log LvlDebug ''Event received from chainEventCh'' [EventArg ev],
               Log LvlDebug ''Currently no subscribers to the statediffing service; processing is halted'' []]\<rparr>"
  have s: "subscribers ?w1 = 0" using Cons.prems by simp
  from Cons.IH [OF s] obtain w' where
    l: "Loop_select enc (map ChainEventCase evs) ?w1 = Returns (False, w')"
    and t: "trace w' = trace ?w1 @ emitted ?w1 w'"
    and b: "filter builder_call (emitted ?w1 w') = []"
    and f: "w' = ?w1\<lparr>trace := trace w'\<rparr>"
    by blast
  have t1: "trace ?w1 = trace w @ emitted w ?w1" by (simp add: emitted_def)
  have e: "emitted w w' = emitted w ?w1 @ emitted ?w1 w'" by (rule emitted_trans(1) [OF t1 t])
  have t2: "trace w' = trace w @ emitted w w'" by (rule emitted_trans(2) [OF t1 t])
  have e1: "filter builder_call (emitted w ?w1) = []" by (simp add: emitted_def)
  have f': "w' = w\<lparr>trace := trace w'\<rparr>" using f by simp
  from b e1 have "filter builder_call (emitted w w') = []" by (simp add: e)
  with l t2 f' onChainEvent_idle [OF Cons.prems, of enc ev] show ?case by auto
qed

text \<open>
  Claim C1. While the counter is zero, the loop's handling of a chain event returns after
  the two debug logs: nothing but the trace changes and the trace gains no call of
  \<^verbatim>\<open>BuildStateDiff\<close>. So \<^verbatim>\<open>Loop\<close>, fed any sequence of chain events from such a world,
  never calls the builder and goes on waiting.
\<close>

theorem no_subscribers_no_build:
  assumes "subscribers w = 0"
  shows "(\<exists>w'. onChainEvent enc ev w = Returns w' \<and>
               w' = w\<lparr>trace := trace w @ emitted w w'\<rparr> \<and>
               filter builder_call (emitted w w') = []) \<and>
         (\<exists>w'. Loop enc (map ChainEventCase evs) w = Returns (False, w') \<and>
               w' = w\<lparr>trace := trace w @ emitted w w'\<rparr> \<and>
               filter builder_call (emitted w w') = [])"
proof
  show "\<exists>w'. onChainEvent enc ev w = Returns w' \<and>
               w' = w\<lparr>trace := trace w @ emitted w w'\<rparr> \<and>
               filter builder_call (emitted w w') = []"
    using onChainEvent_idle [OF assms, of enc ev] by (simp add: emitted_def)
next
  let ?w1 = "emit SubscribeChainEventCall w"
  have s: "subscribers ?w1 = 0" using assms by (simp add: emit_def)
  from Loop_select_idle [OF s, of enc evs] obtain w' where
    l: "Loop_select enc (map ChainEventCase evs) ?w1 = Returns (False, w')"
    and t: "trace w' = trace ?w1 @ emitted ?w1 w'"
    and b: "filter builder_call (emitted ?w1 w') = []"
    and f: "w' = ?w1\<lparr>trace := trace w'\<rparr>"
    by blast
  have t1: "trace ?w1 = trace w @ emitted w ?w1" by (simp add: emitted_def emit_def)
  have e: "emitted w w' = emitted w ?w1 @ emitted ?w1 w'" by (rule emitted_trans(1) [OF t1 t])
  have t2: "trace w' = trace w @ emitted w w'" by (rule emitted_trans(2) [OF t1 t])
  have f': "w' = w\<lparr>trace := trace w'\<rparr>" using f by (simp add: emit_def)
  have only: "w' = w\<lparr>trace := trace w @ emitted w w'\<rparr>"
    by (subst t2 [symmetric]) (rule f')
  have "filter builder_call (emitted w ?w1) = []" by (simp add: emitted_def emit_def)
  with b have "filter builder_call (emitted w w') = []" by (simp add: e)
  with l only show "\<exists>w'. Loop enc (map ChainEventCase evs) w = Returns (False, w') \<and>
               w' = w\<lparr>trace := trace w @ emitted w w'\<rparr> \<and>
               filter builder_call (emitted w w') = []"
    unfolding Loop_def by blast
qed

theorem no_subscribers_no_build_witness:
  "subscribers fresh = 0 \<and>
   (\<exists>w'. onChainEvent hashCount \<lparr>Block = block1\<rparr> fresh = Returns w' \<and>
         w' = fresh\<lparr>trace := trace fresh @ emitted fresh w'\<rparr> \<and>
         filter builder_call (emitted fresh w') = []) \<and>
   (\<exists>w'. Loop hashCount (map ChainEventCase [\<lparr>Block = block0\<rparr>, \<lparr>Block = block1\<rparr>]) fresh =
           Returns (False, w') \<and>
         w' = fresh\<lparr>trace := trace fresh @ emitted fresh w'\<rparr> \<and>
         filter builder_call (emitted fresh w') = [])"
proof -
  have 1: "subscribers fresh = 0" by (simp add: fresh_simps)
  show ?thesis
    using 1 no_subscribers_no_build [OF 1, of hashCount "\<lparr>Block = block1\<rparr>"
                                      "[\<lparr>Block = block0\<rparr>, \<lparr>Block = block1\<rparr>]"]
    by blast
qed

lemma onChainEvent_active:
  assumes "subscribers w \<noteq> 0"
  obtains w3 where "w3\<lparr>trace := t\<rparr> = w\<lparr>lastBlock := Some (Block ev), trace := t\<rparr>"
    and "onChainEvent enc ev w =
           (case parent_of w ev of
              None \<Rightarrow> Returns (emit (Log LvlError ''Parent block is nil, skipping this block (%d)''
                                       [NumArg (Number (Block ev))]) w3)
            | Some parent \<Rightarrow>
                (case processStateDiff enc (Block ev) parent w3 of
                   Returns (Some err, w4) \<Rightarrow>
                     Returns (emit (Log LvlError ''Error building statediff for block %d; error: ''
                                      [NumArg (Number (Block ev)), ErrArg err]) w4)
                 | Returns (None, w4) \<Rightarrow> Returns w4
                 | Panics \<Rightarrow> Panics
                 | Blocks \<Rightarrow> Blocks))"
proof (cases "lastBlock w \<noteq> None \<and> Hash (the (lastBlock w)) = ParentHash (Block ev)")
  case True
  let ?w3 = "(emit (Log LvlDebug ''Event received from chainEventCh'' [EventArg ev]) w)
               \<lparr>lastBlock := Some (Block ev)\<rparr>"
  show thesis
  proof (rule that [of ?w3])
    show "?w3\<lparr>trace := t\<rparr> = w\<lparr>lastBlock := Some (Block ev), trace := t\<rparr>"
      by (simp add: emit_def)
    show "onChainEvent enc ev w =
           (case parent_of w ev of
              None \<Rightarrow> Returns (emit (Log LvlError ''Parent block is nil, skipping this block (%d)''
                                       [NumArg (Number (Block ev))]) ?w3)
            | Some parent \<Rightarrow>
                (case processStateDiff enc (Block ev) parent ?w3 of
                   Returns (Some err, w4) \<Rightarrow>
                     Returns (emit (Log LvlError ''Error building statediff for block %d; error: ''
                                      [NumArg (Number (Block ev)), ErrArg err]) w4)
                 | Returns (None, w4) \<Rightarrow> Returns w4
                 | Panics \<Rightarrow> Panics
                 | Blocks \<Rightarrow> Blocks))"
      using assms True
      by (simp add: onChainEvent_def parent_of_def emit_sel LoadInt32_def Let_def)
  qed
next
  case False
  let ?w3 = "(emit (GetBlockByHashCall (ParentHash (Block ev)))
                (emit (Log LvlDebug ''Event received from chainEventCh'' [EventArg ev]) w))
               \<lparr>lastBlock := Some (Block ev)\<rparr>"
  show thesis
  proof (rule that [of ?w3])
    show "?w3\<lparr>trace := t\<rparr> = w\<lparr>lastBlock := Some (Block ev), trace := t\<rparr>"
      by (simp add: emit_def)
    show "onChainEvent enc ev w =
           (case parent_of w ev of
              None \<Rightarrow> Returns (emit (Log LvlError ''Parent block is nil, skipping this block (%d)''
                                       [NumArg (Number (Block ev))]) ?w3)
            | Some parent \<Rightarrow>
                (case processStateDiff enc (Block ev) parent ?w3 of
                   Returns (Some err, w4) \<Rightarrow>
                     Returns (emit (Log LvlError ''Error building statediff for block %d; error: ''
                                      [NumArg (Number (Block ev)), ErrArg err]) w4)
                 | Returns (None, w4) \<Rightarrow> Returns w4
                 | Panics \<Rightarrow> Panics
                 | Blocks \<Rightarrow> Blocks))"
      using assms False
      by (auto simp add: onChainEvent_def parent_of_def emit_sel LoadInt32_def Let_def)
  qed
qed

text \<open>
  An event for block 1 that reaches the fresh service (counter zero) is dropped before the
  assignment to \<^verbatim>\<open>lastBlock\<close>: the cache is still nil afterwards.
\<close>

theorem event_without_subscribers_keeps_lastBlock:
  "onChainEvent hashCount \<lparr>Block = block1\<rparr> fresh = Returns idle_once \<and>
   lastBlock idle_once \<noteq> Some (Block \<lparr>Block = block1\<rparr>)"
  by (simp add: onChainEvent_def LoadInt32_def emit_def idle_once_def fresh_def
        NewStateDiffService_def)

text \<open>
  Claim C8, amended. An event received while the counter is zero leaves \<^verbatim>\<open>lastBlock\<close> as it
  was. For an event received while the counter is not zero, whenever the handling returns
  \<^verbatim>\<open>lastBlock\<close> is the event's block, whatever the outcome; and the handling does return
  when the parent cannot be resolved, when the builder fails, and whenever the mutex is
  free and no registered channel is closed.
\<close>

theorem lastBlock_overwritten_when_active:
  "(subscribers w = 0 \<longrightarrow>
      (\<exists>w'. onChainEvent enc ev w = Returns w' \<and> lastBlock w' = lastBlock w)) \<and>
   (subscribers w \<noteq> 0 \<longrightarrow>
      (\<forall>w'. onChainEvent enc ev w = Returns w' \<longrightarrow> lastBlock w' = Some (Block ev)) \<and>
      (parent_of w ev = None \<longrightarrow> (\<exists>w'. onChainEvent enc ev w = Returns w')) \<and>
      (\<forall>parent e. parent_of w ev = Some parent \<and>
           Builder w (Root parent) (Root (Block ev)) (Number (Block ev)) (Hash (Block ev)) = Inl e \<longrightarrow>
           (\<exists>w'. onChainEvent enc ev w = Returns w')) \<and>
      (\<not> Mutex w \<and> sinks_open w \<longrightarrow> (\<exists>w'. onChainEvent enc ev w = Returns w')))"
proof (intro conjI impI)
  assume "subscribers w = 0"
  from onChainEvent_idle [OF this, of enc ev]
  show "\<exists>w'. onChainEvent enc ev w = Returns w' \<and> lastBlock w' = lastBlock w" by simp
next
  assume act: "subscribers w \<noteq> 0"
  from onChainEvent_active [OF act, of "[]" ev enc] obtain w3 where
    f: "w3\<lparr>trace := []\<rparr> = w\<lparr>lastBlock := Some (Block ev), trace := []\<rparr>"
    and o: "onChainEvent enc ev w =
           (case parent_of w ev of
              None \<Rightarrow> Returns (emit (Log LvlError ''Parent block is nil, skipping this block (%d)''
                                       [NumArg (Number (Block ev))]) w3)
            | Some parent \<Rightarrow>
                (case processStateDiff enc (Block ev) parent w3 of
                   Returns (Some err, w4) \<Rightarrow>
                     Returns (emit (Log LvlError ''Error building statediff for block %d; error: ''
                                      [NumArg (Number (Block ev)), ErrArg err]) w4)
                 | Returns (None, w4) \<Rightarrow> Returns w4
                 | Panics \<Rightarrow> Panics
                 | Blocks \<Rightarrow> Blocks))"
    by blast
  note c = cached_frame [OF f]
  show "\<forall>w'. onChainEvent enc ev w = Returns w' \<longrightarrow> lastBlock w' = Some (Block ev)"
  proof (intro allI impI)
    fix w' assume r: "onChainEvent enc ev w = Returns w'"
    show "lastBlock w' = Some (Block ev)"
    proof (cases "parent_of w ev")
      case None
      with o r c(1) show ?thesis by (auto simp add: emit_sel)
    next
      case (Some parent)
      with o r have "\<exists>err w4. processStateDiff enc (Block ev) parent w3 = Returns (err, w4) \<and>
                       lastBlock w' = lastBlock w4"
        by (auto simp add: emit_sel split: outcome.splits option.splits)
      then obtain err w4 where p: "processStateDiff enc (Block ev) parent w3 = Returns (err, w4)"
        and w': "lastBlock w' = lastBlock w4"
        by blast
      from processStateDiff_frame(1) [OF p] c(1) w' show ?thesis by simp
    qed
  qed
  show "\<exists>w'. onChainEvent enc ev w = Returns w'" if "parent_of w ev = None"
    using that o by simp
  show "\<forall>parent e. parent_of w ev = Some parent \<and>
           Builder w (Root parent) (Root (Block ev)) (Number (Block ev)) (Hash (Block ev)) = Inl e \<longrightarrow>
           (\<exists>w'. onChainEvent enc ev w = Returns w')"
  proof (intro allI impI, elim conjE)
    fix parent e
    assume "parent_of w ev = Some parent"
      and "Builder w (Root parent) (Root (Block ev)) (Number (Block ev)) (Hash (Block ev)) = Inl e"
    with o c(7) show "\<exists>w'. onChainEvent enc ev w = Returns w'"
      by (simp add: processStateDiff_def emit_sel)
  qed
  show "\<exists>w'. onChainEvent enc ev w = Returns w'" if "\<not> Mutex w \<and> sinks_open w"
  proof (cases "parent_of w ev")
    case None
    with o show ?thesis by simp
  next
    case (Some parent)
    from that c have "\<not> Mutex w3" and "sinks_open w3" by (simp_all add: sinks_open_def)
    from processStateDiff_returns [OF this, of enc "Block ev" parent] obtain r
      where "processStateDiff enc (Block ev) parent w3 = Returns r" by blast
    with o Some show ?thesis by (cases r) (auto split: option.splits)
  qed
qed

theorem lastBlock_overwritten_when_active_witness:
  "subscribers fresh = 0 \<and>
   (\<exists>w'. onChainEvent hashCount \<lparr>Block = block1\<rparr> fresh = Returns w' \<and> lastBlock w' = lastBlock fresh) \<and>
   subscribers one_sub \<noteq> 0 \<and>
   parent_of one_sub \<lparr>Block = block1\<rparr> = None \<and>
   \<not> Mutex one_sub \<and> sinks_open one_sub \<and>
   (\<exists>w'. onChainEvent hashCount \<lparr>Block = block1\<rparr> one_sub = Returns w' \<and>
         lastBlock w' = Some (Block \<lparr>Block = block1\<rparr>)) \<and>
   subscribers failing_sub \<noteq> 0 \<and>
   parent_of failing_sub \<lparr>Block = block1\<rparr> = Some block0 \<and>
   Builder failing_sub (Root block0) (Root (Block \<lparr>Block = block1\<rparr>))
     (Number (Block \<lparr>Block = block1\<rparr>)) (Hash (Block \<lparr>Block = block1\<rparr>)) = Inl (ErrExternal ''no state'') \<and>
   (\<exists>w'. onChainEvent hashCount \<lparr>Block = block1\<rparr> failing_sub = Returns w' \<and>
         lastBlock w' = Some (Block \<lparr>Block = block1\<rparr>))"
proof -
  have 1: "subscribers fresh = 0" by (simp add: fresh_simps)
  have 2: "subscribers one_sub \<noteq> 0" by (simp add: one_sub_simps)
  have 3: "parent_of one_sub \<lparr>Block = block1\<rparr> = None"
    by (simp add: parent_of_def one_sub_def fresh_simps noChain_def)
  have 4: "\<not> Mutex one_sub \<and> sinks_open one_sub"
    by (simp add: sinks_open_def one_sub_simps is_closed_def makechan_def)
  have 5: "subscribers failing_sub \<noteq> 0" by (simp add: failing_sub_simps)
  have 6: "parent_of failing_sub \<lparr>Block = block1\<rparr> = Some block0"
    by (simp add: parent_of_def failing_sub_simps block0_def block1_def)
  have 7: "Builder failing_sub (Root block0) (Root (Block \<lparr>Block = block1\<rparr>))
     (Number (Block \<lparr>Block = block1\<rparr>)) (Hash (Block \<lparr>Block = block1\<rparr>)) = Inl (ErrExternal ''no state'')"
    by (simp add: failing_sub_simps)
  show ?thesis
    using 1 2 3 4 5 6 7
      lastBlock_overwritten_when_active [of fresh hashCount "\<lparr>Block = block1\<rparr>"]
      lastBlock_overwritten_when_active [of one_sub hashCount "\<lparr>Block = block1\<rparr>"]
      lastBlock_overwritten_when_active [of failing_sub hashCount "\<lparr>Block = block1\<rparr>"]
    by blast
qed

subsection \<open>The invariant of the counter\<close>

lemma Subscribe_gate_inv:
  assumes "Subscribe sid pc qc w = Returns w'" and "gate_inv w"
  shows "gate_inv w'"
proof (cases "Mutex w")
  case True
  with assms(1) show ?thesis
    by (simp add: Subscribe_def Subscribe_cas_def Subscribe_insert_def Lock_def emit_def
          CompareAndSwapInt32_def Let_def split: if_splits)
next
  case False
  from Subscribe_returns [OF False, of sid pc qc] assms show ?thesis
    by (auto simp add: gate_inv_def)
qed

lemma Unsubscribe_gate_inv:
  assumes "Unsubscribe sid w = Returns (err, w')" and "gate_inv w"
  shows "gate_inv w'"
proof (cases "Mutex w")
  case True
  with assms(1) show ?thesis
    by (simp add: Unsubscribe_def Lock_def emit_def Let_def)
next
  case False
  show ?thesis
  proof (cases "map_of (Subscriptions w) sid")
    case None
    from Unsubscribe_unknown [OF False None] assms show ?thesis
      by (auto simp add: gate_inv_def emit_def)
  next
    case (Some sub)
    from Unsubscribe_known [OF False Some] assms show ?thesis
      by (auto simp add: gate_inv_def)
  qed
qed

lemma Stop_gate_inv:
  assumes "Stop w = Returns (err, w')" and "gate_inv w"
  shows "gate_inv w'"
  using assms
  by (auto simp add: Stop_def emit_def gate_inv_def Let_def split: option.splits)

lemma close_gate_inv:
  assumes "close w = Returns w'" and "gate_inv w"
  shows "gate_inv w'"
proof -
  from assms(1) obtain w2 where r: "close_range (Subscriptions w) (w\<lparr>Mutex := True\<rparr>) = Returns w2"
    and w': "w' = w2\<lparr>Mutex := False\<rparr>"
    by (auto simp add: close_def Lock_def Unlock_def split: if_splits outcome.splits)
  note f = close_range_frame [OF r]
  from f have "fst ` set (Subscriptions w2) = {}" by simp
  then have "Subscriptions w2 = []" by simp
  with f w' assms(2) show ?thesis by (simp add: gate_inv_def)
qed

lemma onChainEvent_gate_inv:
  assumes "onChainEvent enc ev w = Returns w'" and "gate_inv w"
  shows "gate_inv w'"
proof (cases "subscribers w = 0")
  case True
  from onChainEvent_idle [OF True, of enc ev] assms show ?thesis
    by (auto simp add: gate_inv_def)
next
  case False
  from onChainEvent_active [OF False, of "[]" ev enc] obtain w3 where
    f: "w3\<lparr>trace := []\<rparr> = w\<lparr>lastBlock := Some (Block ev), trace := []\<rparr>"
    and o: "onChainEvent enc ev w =
           (case parent_of w ev of
              None \<Rightarrow> Returns (emit (Log LvlError ''Parent block is nil, skipping this block (%d)''
                                       [NumArg (Number (Block ev))]) w3)
            | Some parent \<Rightarrow>
                (case processStateDiff enc (Block ev) parent w3 of
                   Returns (Some err, w4) \<Rightarrow>
                     Returns (emit (Log LvlError ''Error building statediff for block %d; error: ''
                                      [NumArg (Number (Block ev)), ErrArg err]) w4)
                 | Returns (None, w4) \<Rightarrow> Returns w4
                 | Panics \<Rightarrow> Panics
                 | Blocks \<Rightarrow> Blocks))"
    by blast
  note c = cached_frame [OF f]
  from c assms(2) have g3: "gate_inv w3" by (simp add: gate_inv_def)
  show ?thesis
  proof (cases "parent_of w ev")
    case None
    with o assms(1) g3 show ?thesis by (auto simp add: gate_inv_def emit_sel)
  next
    case (Some parent)
    with o assms(1) have "\<exists>err w4. processStateDiff enc (Block ev) parent w3 = Returns (err, w4) \<and>
                       gate_inv w' = gate_inv w4"
      by (auto simp add: emit_sel gate_inv_def split: outcome.splits option.splits)
    then obtain err w4 where p: "processStateDiff enc (Block ev) parent w3 = Returns (err, w4)"
      and w': "gate_inv w' = gate_inv w4"
      by blast
    from processStateDiff_frame(2) [OF p g3] w' show ?thesis by simp
  qed
qed

lemma reachable_gate_inv: "reachable enc w \<Longrightarrow> gate_inv w"
proof (induction rule: reachable.induct)
  case (constructed builder chain streamBlock)
  show ?case by (simp add: gate_inv_def NewStateDiffService_def)
next
  case (subscribed w sid pc qc w')
  then show ?case by (auto intro: Subscribe_gate_inv)
next
  case (unsubscribed w sid err w')
  then show ?case by (auto intro: Unsubscribe_gate_inv)
next
  case (stopped w err w')
  then show ?case by (auto intro: Stop_gate_inv)
next
  case (event w ev w')
  then show ?case by (auto intro: onChainEvent_gate_inv)
next
  case (closed w w')
  then show ?case by (auto intro: close_gate_inv)
next
  case (channels w pcs bcs)
  then show ?case by (simp add: gate_inv_def)
qed

end
